theory Spec2Isabelle
  imports Complex_Main "HOL-Library.Sublist"
begin

section \<open>Python values shared by the models\<close>

text \<open>
  Exceptions of the Python source are values. The message of a \<open>ValueError\<close> is kept,
  so that the several \<open>ValueError\<close>s one function raises can be told apart.
\<close>

datatype error =
    AssertionError
  | IndexError
  | TypeError
  | ValueError string

section \<open>Pipeline orchestrator: process topology (data_preprocessor.py)\<close>

text \<open>
  \<open>process_processing_params\<close> computes the number of writer and tokenizer processes from
  \<open>self.processes\<close> and \<open>self.shuffle\<close>:
  \<^verbatim>\<open>
    if self.shuffle:
        self.writer_process_num = (self.processes - 1) // 2
    else:
        self.writer_process_num = math.ceil((self.processes - 1) / 10)
    self.tokenize_process_num = self.processes - 1 - self.writer_process_num
  \<close>
  Python's \<open>//\<close> is floor division, which is \<open>div\<close> on \<open>int\<close>. \<open>math.ceil(a / 10)\<close>
  is the ceiling of the quotient; it is written with floor division of the negated
  numerator (the float rounding of \<open>/\<close> is exact for every process count a machine has).
\<close>

definition writer_process_num :: "int \<Rightarrow> bool \<Rightarrow> int" where
  "writer_process_num processes shuffle =
     (if shuffle then (processes - 1) div 2
      else - ((- (processes - 1)) div 10))"

definition tokenize_process_num :: "int \<Rightarrow> bool \<Rightarrow> int" where
  "tokenize_process_num processes shuffle =
     processes - 1 - writer_process_num processes shuffle"

text \<open>
  \<open>process_dataset\<close> chooses between \<open>file_split_process_dataset\<close> and
  \<open>task_split_process_dataset\<close>.
\<close>

datatype topology = file_split | task_split

definition process_dataset :: "int \<Rightarrow> topology" where
  "process_dataset processes = (if processes < 3 then file_split else task_split)"

text \<open>
  \<open>task_split_process_dataset\<close> builds one \<open>Process\<close> per element of
  \<open>range(self.tokenize_process_num)\<close> and of \<open>range(self.writer_process_num)\<close>, and runs
  \<open>reader_process\<close> itself: one reader.
\<close>

record roles =
  readers :: nat
  tokenizers :: nat
  writers :: nat

definition task_split_process_dataset :: "int \<Rightarrow> bool \<Rightarrow> roles" where
  "task_split_process_dataset processes shuffle =
     \<lparr> readers = 1,
       tokenizers = nat (tokenize_process_num processes shuffle),
       writers = nat (writer_process_num processes shuffle) \<rparr>"

section \<open>Per-worker checkpoint files (data_preprocessor.py)\<close>

subsection \<open>Python's \<open>str(int)\<close>, \<open>int(str)\<close> and \<open>str.split\<close>\<close>

text \<open>
  \<open>update_checkpoint\<close> formats five integers with an f-string, that is with \<open>str\<close>:
  decimal digits, most significant first, and a leading \<open>-\<close> for a negative number.
\<close>

definition digit_char :: "nat \<Rightarrow> char" where
  "digit_char d = char_of (48 + d)"

definition is_digit :: "char \<Rightarrow> bool" where
  "is_digit c = (48 \<le> (of_char c :: nat) \<and> (of_char c :: nat) \<le> 57)"

definition digit_val :: "char \<Rightarrow> nat" where
  "digit_val c = of_char c - 48"

function str_nat :: "nat \<Rightarrow> string" where
  "str_nat n = (if n < 10 then [digit_char n] else str_nat (n div 10) @ [digit_char (n mod 10)])"
  by pat_completeness auto
termination
  by (relation "measure id") auto

declare str_nat.simps [simp del]

definition str_int :: "int \<Rightarrow> string" where
  "str_int i = (if i < 0 then CHR ''-'' # str_nat (nat (- i)) else str_nat (nat i))"

text \<open>
  \<open>int(s)\<close> in base 10: surrounding whitespace is stripped, an optional sign follows, then
  at least one decimal digit; anything else raises \<open>ValueError\<close>. (Python also accepts
  single underscores between digits; \<open>str\<close> never produces them, and the model rejects them.)
\<close>

definition is_space :: "char \<Rightarrow> bool" where
  "is_space c = (c = CHR '' '' \<or> c = CHR 0x09 \<or> c = CHR 0x0A \<or> c = CHR 0x0B \<or> c = CHR 0x0C \<or> c = CHR 0x0D)"

definition py_strip :: "string \<Rightarrow> string" where
  "py_strip s = rev (dropWhile is_space (rev (dropWhile is_space s)))"

definition digits_val :: "string \<Rightarrow> nat" where
  "digits_val ds = foldl (\<lambda>a c. 10 * a + digit_val c) 0 ds"

definition int_of_digits :: "string \<Rightarrow> error + nat" where
  "int_of_digits ds =
     (if ds \<noteq> [] \<and> list_all is_digit ds then Inr (digits_val ds)
      else Inl (ValueError ''invalid literal for int() with base 10''))"

definition py_int :: "string \<Rightarrow> error + int" where
  "py_int s =
     (case py_strip s of
        [] \<Rightarrow> Inl (ValueError ''invalid literal for int() with base 10'')
      | c # cs \<Rightarrow>
          if c = CHR ''-'' then map_sum id (\<lambda>n. - int n) (int_of_digits cs)
          else if c = CHR ''+'' then map_sum id int (int_of_digits cs)
          else map_sum id int (int_of_digits (c # cs)))"

text \<open>
  \<open>s.split(sep)\<close> with an explicit separator: the leftmost occurrences of \<open>sep\<close>, scanned
  from the left and not overlapping, cut the string; an empty separator raises \<open>ValueError\<close>.
\<close>

function split_from :: "string \<Rightarrow> string \<Rightarrow> string \<Rightarrow> string list" where
  "split_from sep cur [] = [cur]"
| "split_from sep cur (c # cs) =
     (if sep \<noteq> [] \<and> prefix sep (c # cs)
      then cur # split_from sep [] (drop (length sep) (c # cs))
      else split_from sep (cur @ [c]) cs)"
  by pat_completeness auto
termination
  by (relation "measure (\<lambda>(sep, cur, s). length s)") auto

definition py_split :: "string \<Rightarrow> string \<Rightarrow> error + string list" where
  "py_split s sep = (if sep = [] then Inl (ValueError ''empty separator'') else Inr (split_from sep [] s))"

subsection \<open>\<open>update_checkpoint\<close> and \<open>read_checkpoint\<close>\<close>

text \<open>
  The files \<open><root>_process_<pid>.txt\<close> are a map from the worker id to the file's content.
  \<^verbatim>\<open>
    def update_checkpoint(self, process_checkpoint_path, checkpoint_data):
        with open(process_checkpoint_path, "w") as file:
            file.write(f"{checkpoint_data[0]}, {checkpoint_data[1]}, {checkpoint_data[2]}, "
                       f"{checkpoint_data[3]}, {checkpoint_data[4]}")
            file.flush()
  \<close>
\<close>

type_synonym checkpoint = "int \<times> int \<times> int \<times> int \<times> int"

definition checkpoint_line :: "checkpoint \<Rightarrow> string" where
  "checkpoint_line d =
     (case d of (d0, d1, d2, d3, d4) \<Rightarrow>
        str_int d0 @ '', '' @ str_int d1 @ '', '' @ str_int d2 @ '', '' @ str_int d3 @ '', '' @ str_int d4)"

definition update_checkpoint :: "(nat \<rightharpoonup> string) \<Rightarrow> nat \<Rightarrow> checkpoint \<Rightarrow> (nat \<rightharpoonup> string)" where
  "update_checkpoint files pid checkpoint_data = files(pid \<mapsto> checkpoint_line checkpoint_data)"

text \<open>
  \<open>read_checkpoint\<close> starts every worker at \<open>(0, 0, 0, 0, 0)\<close>; when resuming and the
  worker's file exists it evaluates
  \<^verbatim>\<open>[int(i) for i in file.read().split(", ")]\<close>
  and unpacks the list into five names. Any exception on the way is logged and leaves the
  worker at the initial tuple. (The aggregation of the statistics files, which the function
  does first, does not touch the checkpoints and is left out.)
\<close>

fun ints_of :: "string list \<Rightarrow> error + int list" where
  "ints_of [] = Inr []"
| "ints_of (s # ss) =
     (case py_int s of
        Inl e \<Rightarrow> Inl e
      | Inr i \<Rightarrow> (case ints_of ss of Inl e \<Rightarrow> Inl e | Inr is \<Rightarrow> Inr (i # is)))"

definition parse_checkpoint :: "string \<Rightarrow> error + checkpoint" where
  "parse_checkpoint content =
     (case py_split content '', '' of
        Inl e \<Rightarrow> Inl e
      | Inr parts \<Rightarrow>
          (case ints_of parts of
             Inl e \<Rightarrow> Inl e
           | Inr [file_idx, doc_idx, start_chunk_number, num_chunks_written, num_sequences_written] \<Rightarrow>
               Inr (file_idx, doc_idx, start_chunk_number, num_chunks_written, num_sequences_written)
           | Inr _ \<Rightarrow> Inl (ValueError ''wrong number of values to unpack'')))"

definition read_checkpoint :: "bool \<Rightarrow> (nat \<rightharpoonup> string) \<Rightarrow> nat \<Rightarrow> checkpoint list" where
  "read_checkpoint resume_from_checkpoint files num_writers =
     map (\<lambda>pid.
            if resume_from_checkpoint then
              (case files pid of
                 None \<Rightarrow> (0, 0, 0, 0, 0)
               | Some content \<Rightarrow>
                   (case parse_checkpoint content of
                      Inl e \<Rightarrow> (0, 0, 0, 0, 0)
                    | Inr c \<Rightarrow> c))
            else (0, 0, 0, 0, 0))
         [0 ..< num_writers]"

section \<open>Token-budget formatter: truncation (utils.py)\<close>

text \<open>
  A segment is the list \<open>[prefix, middle, suffix]\<close> of token lists that \<open>chunk\<close> builds
  (\<open>pad_helper\<close> appends a fourth list, the padding). \<open>truncate_helper\<close> mutates the
  segments in place; the model passes the list of segments along.
  \<^verbatim>\<open>
    num_groups = len(samples_lst)
    remove_idxs = [2] * num_groups  # remove from suffixes first
    i = 0
    while diff:
        remove_idx_i = remove_idxs[i]
        sample_i = samples_lst[i]
        if sample_i[remove_idx_i]:
            pop_idx = -1 if remove_idx_i == 2 else 0
            sample_i[remove_idx_i].pop(pop_idx)
            diff -= 1
        else:
            remove_idxs[i] = (remove_idxs[i] + 1) % 3
        i = (i + 1) % num_groups
    return samples_lst
  \<close>
  The loop may run forever, so it is a partial function into \<open>option\<close>: \<open>None\<close> is
  "does not return". \<open>while diff\<close> runs as long as \<open>diff\<close> is not zero. An index out of
  range raises \<open>IndexError\<close>.
\<close>

type_synonym segment = "int list list"

definition pop :: "int \<Rightarrow> int list \<Rightarrow> int list" where
  "pop pop_idx xs = (if pop_idx = - 1 then butlast xs else tl xs)"

partial_function (option) truncate_loop ::
  "segment list \<Rightarrow> nat list \<Rightarrow> nat \<Rightarrow> int \<Rightarrow> (error + segment list) option" where
  "truncate_loop samples_lst remove_idxs i diff =
     (if diff = 0 then Some (Inr samples_lst)
      else if length remove_idxs \<le> i \<or> length samples_lst \<le> i then Some (Inl IndexError)
      else
        let remove_idx_i = remove_idxs ! i;
            sample_i = samples_lst ! i
        in if length sample_i \<le> remove_idx_i then Some (Inl IndexError)
           else if sample_i ! remove_idx_i \<noteq> [] then
             let pop_idx = (if remove_idx_i = 2 then - 1 else 0)
             in truncate_loop
                  (samples_lst[i := sample_i[remove_idx_i := pop pop_idx (sample_i ! remove_idx_i)]])
                  remove_idxs
                  ((i + 1) mod length samples_lst)
                  (diff - 1)
           else
             truncate_loop
               samples_lst
               (remove_idxs[i := (remove_idxs ! i + 1) mod 3])
               ((i + 1) mod length samples_lst)
               diff)"

declare truncate_loop.simps [code]

definition truncate_helper :: "segment list \<Rightarrow> int \<Rightarrow> (error + segment list) option" where
  "truncate_helper samples_lst diff =
     (let num_groups = length samples_lst;
          remove_idxs = replicate num_groups 2
      in truncate_loop samples_lst remove_idxs 0 diff)"

text \<open>
  \<open>fim\<close> measures the segments with
  \<^verbatim>\<open>np.concatenate([np.concatenate(subarr) for subarr in arr]).shape[0]\<close>.
\<close>

definition flatten_2d :: "segment list \<Rightarrow> int list" where
  "flatten_2d arr = concat (map concat arr)"

definition tokens :: "segment \<Rightarrow> nat" where
  "tokens seg = length (concat seg)"

definition total_len :: "segment list \<Rightarrow> nat" where
  "total_len segments = length (flatten_2d segments)"

subsection \<open>Predicates and measures used in the proofs about the loop\<close>

text \<open>
  The loop state is well formed when the current index is in range, there is one removal
  index below 3 per segment, and every segment has its three regions. A removal index that
  has moved on to the prefix (0) or the middle (1) has left empty regions behind.
  \<open>ordered_trunc x y\<close> says that \<open>y\<close> is \<open>x\<close> after tokens were removed by the ordered
  policy: from the end of the suffix, then from the start of the prefix once the suffix is
  empty, then from the start of the middle once prefix and suffix are empty.
\<close>

definition loop_state_ok :: "segment list \<Rightarrow> nat list \<Rightarrow> nat \<Rightarrow> bool" where
  "loop_state_ok s r i =
     (i < length s \<and> length r = length s \<and> list_all (\<lambda>seg. length seg = 3) s \<and> list_all (\<lambda>x. x < 3) r)"

definition regions_ok :: "segment list \<Rightarrow> nat list \<Rightarrow> bool" where
  "regions_ok s r =
     (\<forall>j < length s. (r ! j = 0 \<longrightarrow> s ! j ! 2 = []) \<and> (r ! j = 1 \<longrightarrow> s ! j ! 2 = [] \<and> s ! j ! 0 = []))"

definition ordered_trunc :: "segment \<Rightarrow> segment \<Rightarrow> bool" where
  "ordered_trunc x y =
     (length y = 3 \<and> prefix (y ! 2) (x ! 2) \<and> suffix (y ! 0) (x ! 0) \<and> suffix (y ! 1) (x ! 1)
      \<and> (y ! 0 \<noteq> x ! 0 \<longrightarrow> y ! 2 = [])
      \<and> (y ! 1 \<noteq> x ! 1 \<longrightarrow> y ! 0 = [] \<and> y ! 2 = []))"

definition loop_post :: "segment list \<Rightarrow> int \<Rightarrow> error + segment list \<Rightarrow> bool" where
  "loop_post s d y =
     (\<exists>s'. y = Inr s' \<and> 0 \<le> d \<and> int (total_len s') + d = int (total_len s)
        \<and> length s' = length s \<and> (\<forall>j < length s. ordered_trunc (s ! j) (s' ! j)))"

text \<open>
  Termination measure: the number of region switches a segment needs before its removal index
  points at a non-empty region, and the number of loop iterations until the current index
  reaches a segment that still holds tokens.
\<close>

definition debt :: "segment \<Rightarrow> nat \<Rightarrow> nat" where
  "debt seg k =
     (if seg ! k \<noteq> [] then 0
      else if seg ! ((k + 1) mod 3) \<noteq> [] then 1
      else if seg ! ((k + 2) mod 3) \<noteq> [] then 2
      else 0)"

definition debt_sum :: "segment list \<Rightarrow> nat list \<Rightarrow> nat" where
  "debt_sum s r = (\<Sum>j < length s. debt (s ! j) (r ! j))"

definition scan_dist :: "segment list \<Rightarrow> nat \<Rightarrow> nat" where
  "scan_dist s i =
     (if \<exists>j. i \<le> j \<and> j < length s \<and> tokens (s ! j) \<noteq> 0 then length s - i
      else 2 * length s - i)"

text \<open>
  Round-robin fairness: \<open>cyc n i x\<close> is the number of iterations until segment \<open>x\<close> is
  visited when the current index is \<open>i\<close>; \<open>switches_left\<close> bounds the region switches a
  segment that keeps tokens can still spend.
\<close>

definition cyc :: "nat \<Rightarrow> nat \<Rightarrow> nat \<Rightarrow> nat" where
  "cyc n i x = (if i \<le> x then x - i else x + n - i)"

definition switches_left :: "nat \<Rightarrow> nat" where
  "switches_left k = (if k = 2 then 2 else if k = 0 then 1 else 0)"

definition fair :: "segment list \<Rightarrow> nat list \<Rightarrow> nat \<Rightarrow> segment list \<Rightarrow> bool" where
  "fair s r i s' =
     (\<forall>j < length s. \<forall>k < length s. tokens (s' ! k) \<noteq> 0 \<longrightarrow>
        tokens (s ! j) + tokens (s' ! k)
          \<le> tokens (s' ! j) + tokens (s ! k) + switches_left (r ! k)
              + (if cyc (length s) i j < cyc (length s) i k then 1 else 0))"

section \<open>Token-budget formatter: fill-in-the-middle (utils.py)\<close>

subsection \<open>\<open>chunk\<close>\<close>

text \<open>
  The tokenizer is an external capability: its \<open>encode\<close> and \<open>decode\<close> are the fields of a record.
  \<open>chunk\<close> draws from \<open>np.random\<close>; what it draws in one call is a \<open>draw\<close>: the outcome
  of \<open>np.random.binomial(1, fim_rate)\<close>, the two boundaries of \<open>np.random.randint\<close> and the
  outcome of \<open>np.random.binomial(1, spm_rate)\<close>. \<open>fim\<close> takes the draws of its successive
  calls of \<open>chunk\<close> as a function of the call number. A binomial draw with probability
  \<open>p\<close> can be 1 only if \<open>0 < p\<close> and 0 only if \<open>p < 1\<close>.
  \<^verbatim>\<open>
    if np.random.binomial(1, fim_rate):
        contents = tokenizer.decode(sample, skip_special_tokens=False)
        boundaries = list(np.random.randint(low=0, high=len(contents) + 1, size=2))
        boundaries.sort()
        prefix = contents[: boundaries[0]]
        middle = contents[boundaries[0] : boundaries[1]]
        suffix = contents[boundaries[1] :]
        prefix = tokenizer.encode(prefix)
        middle = tokenizer.encode(middle)
        suffix = tokenizer.encode(suffix)
        is_spm = np.random.binomial(1, spm_rate)
        fim_format = "SPM" if is_spm else "PSM"
        return [prefix, middle, suffix], fim_format
    else:
        fim_format = "AR"
        return [[], [], sample.tolist()], fim_format
  \<close>
\<close>

datatype fim_format = PSM | SPM | AR

record fim_tokenizer =
  tokenizer_encode :: "string \<Rightarrow> int list"
  tokenizer_decode :: "int list \<Rightarrow> string"

record draw =
  do_fim :: bool
  boundaries :: "nat \<times> nat"
  is_spm :: bool

definition binomial_possible :: "real \<Rightarrow> bool \<Rightarrow> bool" where
  "binomial_possible p outcome = (if outcome then 0 < p else p < 1)"

definition draw_possible :: "real \<Rightarrow> real \<Rightarrow> draw \<Rightarrow> bool" where
  "draw_possible fim_rate spm_rate d =
     (binomial_possible fim_rate (do_fim d) \<and> (\<not> do_fim d \<or> binomial_possible spm_rate (is_spm d)))"

definition chunk :: "int list \<Rightarrow> fim_tokenizer \<Rightarrow> draw \<Rightarrow> segment \<times> fim_format" where
  "chunk sample tok d =
     (if do_fim d then
        let contents = tokenizer_decode tok sample;
            b0 = min (fst (boundaries d)) (snd (boundaries d));
            b1 = max (fst (boundaries d)) (snd (boundaries d));
            prefix = take b0 contents;
            middle = take (b1 - b0) (drop b0 contents);
            suffix = drop b1 contents
        in ([tokenizer_encode tok prefix, tokenizer_encode tok middle, tokenizer_encode tok suffix], if is_spm d then SPM else PSM)
      else ([[], [], sample], AR))"

subsection \<open>\<open>pad_helper\<close> and \<open>truncate_or_pad_helper\<close>\<close>

text \<open>
  \<^verbatim>\<open>
    padding = np.full(np.abs(diff), fim_pad_tok_id)
    samples_lst[-1].append(padding)
  \<close>
  The padding becomes a fourth list of the last segment.
  \<^verbatim>\<open>
    segments = [pair[0] for pair in segments_fim_format_pairs]
    fim_formats = [pair[1] for pair in segments_fim_format_pairs]
    if diff >= 0:
        segments = truncate_helper(segments, diff, sample_idx)
    else:
        segments = pad_helper(segments, diff, fim_pad_tok_id)
    return [(segments[i], fim_formats[i]) for i in range(len(segments))]
  \<close>
\<close>

definition pad_helper :: "segment list \<Rightarrow> int \<Rightarrow> int \<Rightarrow> error + segment list" where
  "pad_helper samples_lst diff fim_pad_tok_id =
     (let padding = replicate (nat \<bar>diff\<bar>) fim_pad_tok_id
      in if samples_lst = [] then Inl IndexError
         else Inr (butlast samples_lst @ [last samples_lst @ [padding]]))"

definition truncate_or_pad_helper ::
  "(segment \<times> fim_format) list \<Rightarrow> int \<Rightarrow> int \<Rightarrow> (error + (segment \<times> fim_format) list) option" where
  "truncate_or_pad_helper segments_fim_format_pairs diff fim_pad_tok_id =
     (let segments = map fst segments_fim_format_pairs;
          fim_formats = map snd segments_fim_format_pairs
      in case (if diff \<ge> 0 then truncate_helper segments diff
               else Some (pad_helper segments diff fim_pad_tok_id)) of
           None \<Rightarrow> None
         | Some (Inl e) \<Rightarrow> Some (Inl e)
         | Some (Inr segments') \<Rightarrow>
             if length fim_formats < length segments' then Some (Inl IndexError)
             else Some (Inr (map (\<lambda>i. (segments' ! i, fim_formats ! i)) [0 ..< length segments'])))"

subsection \<open>\<open>format_fim\<close>\<close>

text \<open>
  For every pair, \<open>optional_padding = sample_i[-1] if len(sample_i) > 3 else []\<close>, and the
  segment is laid out by its format, followed by the padding:
  PSM is \<open>bos? <prefix_tok> prefix <suffix_tok> suffix <middle_tok> middle <eos>\<close>,
  SPM is \<open>bos? <prefix_tok> <suffix_tok> suffix <middle_tok> prefix middle <eos>\<close>,
  anything else (AR) is \<open>bos? prefix middle suffix <eos>\<close>. Then
  \<^verbatim>\<open>
    sample = np.concatenate(sample).astype(np.int64)
    label = sample[1:]
    sample = sample[:-1]
    sample_mask = np.ones(max_seq_len - total_padding_len)
    padding_mask = np.zeros(total_padding_len)
    mask = np.concatenate([sample_mask, padding_mask])
    return sample, mask, label
  \<close>
  \<open>np.concatenate\<close> of an empty list and \<open>np.ones\<close> of a negative length raise
  \<open>ValueError\<close>; reading \<open>sample_i[2]\<close> of a shorter segment raises \<open>IndexError\<close>.
  The mask's \<open>1.0\<close> and \<open>0.0\<close> are the integers 1 and 0.
\<close>

definition optional_padding :: "segment \<Rightarrow> int list" where
  "optional_padding sample_i = (if length sample_i > 3 then last sample_i else [])"

definition format_tokens ::
  "segment \<Rightarrow> fim_format \<Rightarrow> int \<Rightarrow> int \<Rightarrow> int \<Rightarrow> int \<Rightarrow> int list \<Rightarrow> int list" where
  "format_tokens sample_i fim_format suffix_tok_id prefix_tok_id middle_tok_id eos_tok_id opt_bos_tok_id =
     (let prefix_idx = 0; middle_idx = 1; suffix_idx = 2 in
      (case fim_format of
         PSM \<Rightarrow>
           opt_bos_tok_id @ [prefix_tok_id] @ sample_i ! prefix_idx @ [suffix_tok_id]
             @ sample_i ! suffix_idx @ [middle_tok_id] @ sample_i ! middle_idx @ [eos_tok_id]
       | SPM \<Rightarrow>
           opt_bos_tok_id @ [prefix_tok_id, suffix_tok_id] @ sample_i ! suffix_idx
             @ [middle_tok_id] @ sample_i ! prefix_idx @ sample_i ! middle_idx @ [eos_tok_id]
       | AR \<Rightarrow>
           opt_bos_tok_id @ sample_i ! prefix_idx @ sample_i ! middle_idx
             @ sample_i ! suffix_idx @ [eos_tok_id])
      @ optional_padding sample_i)"

fun format_loop ::
  "(segment \<times> fim_format) list \<Rightarrow> int \<Rightarrow> int \<Rightarrow> int \<Rightarrow> int \<Rightarrow> int list \<Rightarrow>
   int list list \<Rightarrow> nat \<Rightarrow> error + (int list list \<times> nat)" where
  "format_loop [] suffix_tok_id prefix_tok_id middle_tok_id eos_tok_id opt_bos_tok_id sample total_padding_len =
     Inr (sample, total_padding_len)"
| "format_loop ((sample_i, fim_format) # rest) suffix_tok_id prefix_tok_id middle_tok_id eos_tok_id opt_bos_tok_id
     sample total_padding_len =
     (if length sample_i < 3 then Inl IndexError
      else
        format_loop rest suffix_tok_id prefix_tok_id middle_tok_id eos_tok_id opt_bos_tok_id
          (sample @ [format_tokens sample_i fim_format suffix_tok_id prefix_tok_id middle_tok_id
                       eos_tok_id opt_bos_tok_id])
          (total_padding_len + length (optional_padding sample_i)))"

definition format_fim ::
  "(segment \<times> fim_format) list \<Rightarrow> nat \<Rightarrow> int \<Rightarrow> int \<Rightarrow> int \<Rightarrow> int \<Rightarrow> int list \<Rightarrow>
   error + (int list \<times> int list \<times> int list)" where
  "format_fim segment_fim_format_pairs max_seq_len suffix_tok_id prefix_tok_id middle_tok_id eos_tok_id
     opt_bos_tok_id =
     (case format_loop segment_fim_format_pairs suffix_tok_id prefix_tok_id middle_tok_id eos_tok_id
             opt_bos_tok_id [] 0 of
        Inl e \<Rightarrow> Inl e
      | Inr (samples, total_padding_len) \<Rightarrow>
          if samples = [] then Inl (ValueError ''need at least one array to concatenate'')
          else
            let sample = concat samples;
                label = tl sample;
                sample = butlast sample
            in if max_seq_len < total_padding_len
               then Inl (ValueError ''negative dimensions are not allowed'')
               else
                 let sample_mask = replicate (max_seq_len - total_padding_len) (1::int);
                     padding_mask = replicate total_padding_len (0::int);
                     mask' = sample_mask @ padding_mask
                 in Inr (sample, mask', label))"

subsection \<open>\<open>fim\<close>\<close>

text \<open>
  \<open>np.argwhere(sample == eos_tok_id)\<close> lists the positions of the end-of-sequence token.
  The loop over them calls \<open>chunk\<close> on every non-empty slice before a position; the model
  takes the call as a parameter \<open>f\<close> (applied to the number of the call and the slice), so
  that the loop can be studied on its own:
  \<^verbatim>\<open>
    if segment_breaks.shape != (0, 1):  # FIM each sub-context
        curr_start_position = 0
        for loc in np.nditer(segment_breaks):
            # Only permute non-empty segments.
            if loc - curr_start_position > 0:
                segments, fim_format = chunk(sample=sample[curr_start_position:loc], ...)
                segments_fim_format_pairs.append((segments, fim_format))
            curr_start_position = loc + 1  # jump over the EOD token
        # Permute the segment after the last EOD
        segments, fim_format = chunk(sample=sample[curr_start_position:], ...)
        segments_fim_format_pairs.append((segments, fim_format))
    else:  # FIM over full context
        segments, fim_format = chunk(sample=sample, ...)
        segments_fim_format_pairs.append((segments, fim_format))
  \<close>
\<close>

fun argwhere_eq :: "nat \<Rightarrow> int list \<Rightarrow> int \<Rightarrow> nat list" where
  "argwhere_eq i [] v = []"
| "argwhere_eq i (x # xs) v = (if x = v then i # argwhere_eq (i + 1) xs v else argwhere_eq (i + 1) xs v)"

fun fim_loop :: "(nat \<Rightarrow> int list \<Rightarrow> 'a) \<Rightarrow> int list \<Rightarrow> nat list \<Rightarrow> nat \<Rightarrow> 'a list \<Rightarrow> nat \<times> 'a list" where
  "fim_loop f sample [] curr_start_position pairs = (curr_start_position, pairs)"
| "fim_loop f sample (loc # locs) curr_start_position pairs =
     (if int loc - int curr_start_position > 0
      then fim_loop f sample locs (loc + 1)
             (pairs @ [f (length pairs)
                         (take (loc - curr_start_position) (drop curr_start_position sample))])
      else fim_loop f sample locs (loc + 1) pairs)"

definition fim_split :: "(nat \<Rightarrow> int list \<Rightarrow> 'a) \<Rightarrow> int list \<Rightarrow> int \<Rightarrow> 'a list" where
  "fim_split f sample eos_tok_id =
     (let segment_breaks = argwhere_eq 0 sample eos_tok_id
      in if segment_breaks \<noteq> [] then
           (case fim_loop f sample segment_breaks 0 [] of
              (curr_start_position, pairs) \<Rightarrow>
                pairs @ [f (length pairs) (drop curr_start_position sample)])
         else [f 0 sample])"

text \<open>
  \<^verbatim>\<open>
    add_constant = -1
    for _, fmt in segments_fim_format_pairs:
        if fmt == "AR":
            add_constant += 1
        else:
            add_constant += 4
        if opt_bos_tok_id:
            add_constant += 1
    diff = (total_len + add_constant) - max_seq_len
  \<close>
  \<open>fim\<close> takes row 0 of \<open>sample_array\<close> (the input ids); \<open>max_seq_len\<close> is its length.
  It asserts \<open>0 <= fim_rate <= 1\<close>, and at the end that the three arrays have length
  \<open>max_seq_len\<close> and that \<open>labels[-1] == eos_tok_id\<close>; each failure (also the
  \<open>IndexError\<close> of \<open>labels[-1]\<close> on an empty array, caught by the bare \<open>except\<close>) is
  raised as \<open>AssertionError\<close>. \<open>None\<close> is a call that never returns.
\<close>

definition add_constant :: "(segment \<times> fim_format) list \<Rightarrow> int list \<Rightarrow> int" where
  "add_constant segments_fim_format_pairs opt_bos_tok_id =
     foldl (\<lambda>c (_, fmt). (if fmt = AR then c + 1 else c + 4) + (if opt_bos_tok_id \<noteq> [] then 1 else 0))
       (- 1) segments_fim_format_pairs"

definition fim_segments ::
  "int list \<Rightarrow> fim_tokenizer \<Rightarrow> (nat \<Rightarrow> draw) \<Rightarrow> int \<Rightarrow> (segment \<times> fim_format) list" where
  "fim_segments sample tok draws eos_tok_id =
     fim_split (\<lambda>n doc. chunk doc tok (draws n)) sample eos_tok_id"

definition fim_diff :: "(segment \<times> fim_format) list \<Rightarrow> int list \<Rightarrow> nat \<Rightarrow> int" where
  "fim_diff segments_fim_format_pairs opt_bos_tok_id max_seq_len =
     (int (total_len (map fst segments_fim_format_pairs))
        + add_constant segments_fim_format_pairs opt_bos_tok_id) - int max_seq_len"

definition fim ::
  "int list \<Rightarrow> fim_tokenizer \<Rightarrow> (nat \<Rightarrow> draw) \<Rightarrow> real \<Rightarrow> real \<Rightarrow> int \<Rightarrow> int \<Rightarrow> int \<Rightarrow> int \<Rightarrow> int \<Rightarrow> int list \<Rightarrow>
   (error + (int list \<times> int list \<times> int list)) option" where
  "fim sample tok draws fim_rate spm_rate suffix_tok_id prefix_tok_id middle_tok_id fim_pad_tok_id
     eos_tok_id opt_bos_tok_id =
     (if \<not> (fim_rate \<le> 1 \<and> fim_rate \<ge> 0) then Some (Inl AssertionError)
      else
        let max_seq_len = length sample;
            segments_fim_format_pairs = fim_segments sample tok draws eos_tok_id;
            diff = fim_diff segments_fim_format_pairs opt_bos_tok_id max_seq_len
        in case truncate_or_pad_helper segments_fim_format_pairs diff fim_pad_tok_id of
             None \<Rightarrow> None
           | Some (Inl e) \<Rightarrow> Some (Inl e)
           | Some (Inr pairs') \<Rightarrow>
               (case format_fim pairs' max_seq_len suffix_tok_id prefix_tok_id middle_tok_id eos_tok_id
                       opt_bos_tok_id of
                  Inl e \<Rightarrow> Some (Inl e)
                | Inr (inputs, mask', labels) \<Rightarrow>
                    if \<not> (length inputs = max_seq_len \<and> length mask' = max_seq_len
                            \<and> length labels = max_seq_len)
                    then Some (Inl AssertionError)
                    else if labels = [] \<or> last labels \<noteq> eos_tok_id then Some (Inl AssertionError)
                    else Some (Inr (inputs, mask', labels))))"

subsection \<open>Example inputs\<close>

text \<open>
  A tokenizer with one token per byte, draws that never choose infill (the only outcome
  possible with \<open>fim_rate = 0\<close>), and draws that always do.
\<close>

definition byte_tokenizer :: fim_tokenizer where
  "byte_tokenizer = \<lparr> tokenizer_encode = (\<lambda>s. map (\<lambda>c. int (of_char c)) s), tokenizer_decode = (\<lambda>ids. map (\<lambda>i. char_of (nat i)) ids) \<rparr>"

definition ar_draws :: "nat \<Rightarrow> draw" where
  "ar_draws n = \<lparr> do_fim = False, boundaries = (0, 0), is_spm = False \<rparr>"

definition fim_draws :: "nat \<Rightarrow> draw" where
  "fim_draws n = \<lparr> do_fim = True, boundaries = (1, 2), is_spm = (n = 1) \<rparr>"

subsection \<open>The documents of a sample, and counts used in the proofs\<close>

text \<open>
  \<open>split_at_eos\<close> cuts a sample at every end-of-sequence token: the pieces between the
  tokens, empty ones included, the last piece being what follows the final token.
\<close>

definition special_count :: "fim_format \<Rightarrow> nat" where
  "special_count fmt = (if fmt = AR then 1 else 4)"

definition split_at_eos :: "int \<Rightarrow> int list \<Rightarrow> int list list" where
  "split_at_eos eos_tok_id sample =
     foldr (\<lambda>x docs. if x = eos_tok_id then [] # docs else (x # hd docs) # tl docs) sample [[]]"

definition fim_documents :: "int \<Rightarrow> int list \<Rightarrow> int list list" where
  "fim_documents eos_tok_id sample =
     filter (\<lambda>doc. doc \<noteq> []) (butlast (split_at_eos eos_tok_id sample))
       @ [last (split_at_eos eos_tok_id sample)]"

definition tokens3 :: "segment \<Rightarrow> nat" where
  "tokens3 seg = length (seg ! 0) + length (seg ! 1) + length (seg ! 2)"

section \<open>Shard writer (data_preprocessor.py)\<close>

text \<open>
  An array is the list of its rows; \<open>np.concatenate(arrays, axis=0)\<close> appends the rows
  and raises \<open>ValueError\<close> on an empty list of arrays. A shard file holds its datasets by
  name and the attribute \<open>n_examples\<close>. The storage type, the chunk shape and the
  compression, which the functions choose per field, do not change the rows and are left
  out. The buffer is a dictionary; its items are listed in insertion order.
  \<^verbatim>\<open>
    def save_buffer_to_hdf5(self, h5file, buffer, write_in_batch, dtype="i4", compression="gzip"):
        n_examples = 0
        for data_label in [*buffer]:
            data = np.concatenate(buffer[data_label], axis=0)
            ...
            n_examples = data.shape[0]
            dset = h5file.create_dataset(data_label, data=data, ...)
            if not write_in_batch:
                for idx, f in enumerate(data):
                    dset[idx] = f
        h5file.attrs["n_examples"] = n_examples
  \<close>
\<close>

record 'a h5file =
  datasets :: "(string \<times> 'a list) list"
  n_examples_attr :: "nat option"

definition new_h5file :: "'a h5file" where
  "new_h5file = \<lparr> datasets = [], n_examples_attr = None \<rparr>"

definition np_concatenate :: "'a list list \<Rightarrow> error + 'a list" where
  "np_concatenate arrays =
     (if arrays = [] then Inl (ValueError ''need at least one array to concatenate'')
      else Inr (concat arrays))"

definition create_dataset :: "'a h5file \<Rightarrow> string \<Rightarrow> 'a list \<Rightarrow> error + 'a h5file" where
  "create_dataset h5file data_label data =
     (if data_label \<in> set (map fst (datasets h5file))
      then Inl (ValueError ''Unable to create dataset (name already exists)'')
      else Inr (h5file\<lparr>datasets := datasets h5file @ [(data_label, data)]\<rparr>))"

fun save_buffer_loop ::
  "'a h5file \<Rightarrow> (string \<times> 'a list list) list \<Rightarrow> nat \<Rightarrow> error + ('a h5file \<times> nat)" where
  "save_buffer_loop h5file [] n_examples = Inr (h5file, n_examples)"
| "save_buffer_loop h5file ((data_label, arrays) # rest) n_examples =
     (case np_concatenate arrays of
        Inl e \<Rightarrow> Inl e
      | Inr data \<Rightarrow>
          (case create_dataset h5file data_label data of
             Inl e \<Rightarrow> Inl e
           | Inr h5file' \<Rightarrow> save_buffer_loop h5file' rest (length data)))"

definition save_buffer_to_hdf5 ::
  "'a h5file \<Rightarrow> (string \<times> 'a list list) list \<Rightarrow> error + 'a h5file" where
  "save_buffer_to_hdf5 h5file buffer =
     (case save_buffer_loop h5file buffer 0 of
        Inl e \<Rightarrow> Inl e
      | Inr (h5file', n_examples) \<Rightarrow> Inr (h5file'\<lparr>n_examples_attr := Some n_examples\<rparr>))"

text \<open>
  \<open>append_df_to_hdf5\<close>, step 1:
  \<^verbatim>\<open>
    n_examples = None  # Will determine after concatenation
    for data_label, data_list in df_chunk.tokenized_data.items():
        data = np.concatenate(data_list, axis=0)
        data_dict[data_label] = data
        if n_examples is None:
            n_examples = data.shape[0]
        else:
            assert (
                n_examples == data.shape[0]
            ), "All data_labels must have the same number of examples"
  \<close>
\<close>

fun concatenate_fields ::
  "(string \<times> 'a list list) list \<Rightarrow> (string \<times> 'a list) list \<Rightarrow> nat option \<Rightarrow>
   error + ((string \<times> 'a list) list \<times> nat option)" where
  "concatenate_fields [] data_dict n_examples = Inr (data_dict, n_examples)"
| "concatenate_fields ((data_label, data_list) # rest) data_dict n_examples =
     (case np_concatenate data_list of
        Inl e \<Rightarrow> Inl e
      | Inr data \<Rightarrow>
          (case n_examples of
             None \<Rightarrow> concatenate_fields rest (data_dict @ [(data_label, data)]) (Some (length data))
           | Some n \<Rightarrow>
               if n = length data
               then concatenate_fields rest (data_dict @ [(data_label, data)]) n_examples
               else Inl AssertionError))"

text \<open>
  Steps 2 to 4: \<open>np.random.choice(np.arange(self.total_output_files), n_examples)\<close> picks
  a shard for every row (the parameter \<open>choice\<close>); the rows are grouped by shard in the
  order the shards first appear; every shard file is opened for appending (a missing file is
  an empty one), its \<open>n_examples\<close> grows by the number of rows it gets, and each field's
  rows are stored in a new dataset or appended to the existing one. With no field at all
  \<open>n_examples\<close> is still \<open>None\<close>, the choice is a scalar and \<open>enumerate\<close> raises
  \<open>TypeError\<close>. The result carries the files as they are after the call.
\<close>

fun group_indices :: "nat list \<Rightarrow> nat \<Rightarrow> (nat \<times> nat list) list \<Rightarrow> (nat \<times> nat list) list" where
  "group_indices [] idx idx_seq_to_indices = idx_seq_to_indices"
| "group_indices (idx_seq # rest) idx idx_seq_to_indices =
     group_indices rest (idx + 1)
       (if idx_seq \<in> set (map fst idx_seq_to_indices)
        then map (\<lambda>(k, indices). if k = idx_seq then (k, indices @ [idx]) else (k, indices))
               idx_seq_to_indices
        else idx_seq_to_indices @ [(idx_seq, [idx])])"

fun append_elements :: "(string \<times> 'a list) list \<Rightarrow> string \<Rightarrow> 'a list \<Rightarrow> (string \<times> 'a list) list" where
  "append_elements dsets data_label elements =
     (if data_label \<notin> set (map fst dsets) then dsets @ [(data_label, elements)]
      else map (\<lambda>(l, rows). if l = data_label then (l, rows @ elements) else (l, rows)) dsets)"

definition write_group :: "'a h5file \<Rightarrow> nat list \<Rightarrow> (string \<times> 'a list) list \<Rightarrow> 'a h5file" where
  "write_group h5f indices data_dict =
     (let old_n_examples = (case n_examples_attr h5f of Some n \<Rightarrow> n | None \<Rightarrow> 0);
          new_n_examples = old_n_examples + length indices
      in \<lparr> datasets =
             foldl (\<lambda>dsets (data_label, data).
                      append_elements dsets data_label (map (\<lambda>i. data ! i) indices))
               (datasets h5f) data_dict,
           n_examples_attr = Some new_n_examples \<rparr>)"

definition append_df_to_hdf5 ::
  "(nat \<Rightarrow> 'a h5file) \<Rightarrow> (string \<times> 'a list list) list \<Rightarrow> (nat \<Rightarrow> nat list) \<Rightarrow>
   (error + nat) \<times> (nat \<Rightarrow> 'a h5file)" where
  "append_df_to_hdf5 files tokenized_data choice =
     (case concatenate_fields tokenized_data [] None of
        Inl e \<Rightarrow> (Inl e, files)
      | Inr (data_dict, None) \<Rightarrow> (Inl TypeError, files)
      | Inr (data_dict, Some n_examples) \<Rightarrow>
          let shuffled_indices = choice n_examples;
              idx_seq_to_indices = group_indices shuffled_indices 0 []
          in (Inr n_examples,
              foldl (\<lambda>fs (idx_seq, indices). fs(idx_seq := write_group (fs idx_seq) indices data_dict))
                files idx_seq_to_indices))"

text \<open>The number of rows of every field of a buffer.\<close>

definition rows_of :: "(string \<times> 'a list list) list \<Rightarrow> nat list" where
  "rows_of buffer = map (\<lambda>(data_label, arrays). length (concat arrays)) buffer"

section \<open>Chat/preference encoder (dpo_data_token_generator.py)\<close>

subsection \<open>Python list operations with integer bounds\<close>

text \<open>
  \<open>xs[:k]\<close>, \<open>xs[k:]\<close>, \<open>[x] * n\<close> and the slice assignment \<open>xs[:k] = vals\<close> for
  any integer \<open>k\<close>: a negative bound counts from the end, bounds are clipped to the list,
  a negative repetition gives the empty list, and a slice assignment replaces the slice by
  \<open>vals\<close> whatever their lengths. \<open>s.rfind(sub)\<close> is the highest index at which \<open>sub\<close>
  occurs in \<open>s\<close>, or \<open>-1\<close>.
\<close>

definition py_take :: "'a list \<Rightarrow> int \<Rightarrow> 'a list" where
  "py_take xs k = (if 0 \<le> k then take (nat k) xs else take (length xs - nat (- k)) xs)"

definition py_drop :: "'a list \<Rightarrow> int \<Rightarrow> 'a list" where
  "py_drop xs k = (if 0 \<le> k then drop (nat k) xs else drop (length xs - nat (- k)) xs)"

definition py_repeat :: "'a \<Rightarrow> int \<Rightarrow> 'a list" where
  "py_repeat x n = replicate (nat n) x"

definition py_assign_prefix :: "'a list \<Rightarrow> int \<Rightarrow> 'a list \<Rightarrow> 'a list" where
  "py_assign_prefix xs k vals = vals @ drop (length (py_take xs k)) xs"

definition rfind :: "string \<Rightarrow> string \<Rightarrow> int" where
  "rfind s sub =
     (case filter (\<lambda>i. prefix sub (drop i s)) (rev [0 ..< Suc (length s)]) of
        [] \<Rightarrow> - 1
      | i # _ \<Rightarrow> int i)"

subsection \<open>Documents, tokenizers and the generator's configuration\<close>

text \<open>
  A field of a document is a string or a list of messages (dictionaries with \<open>role\<close> and
  \<open>content\<close>); the prompt may be \<open>None\<close>. The tokenizer is either callable (it returns
  \<open>input_ids\<close> and \<open>attention_mask\<close>) or offers \<open>encode\<close> only (the mask is then all
  ones). The tokenizer's chat template, \<open>ftfy.fix_text\<close>, \<open>wikitext_detokenizer\<close>,
  \<open>str.lower\<close> and the UTF-8 length of a string are external: they are fields of the
  generator, next to the parameters \<open>__init__\<close> reads.
\<close>

record message =
  role :: string
  content :: string

datatype field_value = Str string | Msgs "message list"

datatype dpo_tokenizer =
    Callable "string \<Rightarrow> int list \<times> int list"
  | Encoder "string \<Rightarrow> int list"

record data_stats =
  discarded :: int
  processed :: int
  successful :: int
  raw_chars_count :: int
  raw_bytes_count :: int
  num_pad_tokens :: int
  num_masked_tokens :: int
  loss_valid_tokens :: int
  num_tokens :: int
  normalized_chars_count :: int
  normalized_bytes_count :: int

record DPOTokenGenerator =
  tokenizer :: dpo_tokenizer
  can_apply_chat_template :: bool
  tokenizer_apply_chat_template :: "string option \<Rightarrow> message list \<Rightarrow> string"
  chat_template :: "string option"
  use_ftfy :: bool
  fix_text :: "string \<Rightarrow> string"
  wikitext_detokenize :: bool
  wikitext_detokenizer :: "string \<Rightarrow> string"
  user_role :: string
  assistant_role :: string
  response_delimiter :: "string option"
  max_seq_length :: int
  max_prompt_length :: int
  eos_id :: int
  pad_id :: int
  bos_token_id :: int
  add_bos_token :: bool
  str_lower :: "string \<Rightarrow> string"
  utf8_len :: "string \<Rightarrow> nat"

record answer_tokens =
  prompt_input_ids :: "int list"
  prompt_attention_mask :: "int list"
  input_ids :: "int list"
  attention_mask :: "int list"

datatype 'a step = Discard data_stats | Continue 'a

definition initial_data_stats :: data_stats where
  "initial_data_stats =
     \<lparr> discarded = 0, processed = 1, successful = 0, raw_chars_count = 0, raw_bytes_count = 0,
       num_pad_tokens = 0, num_masked_tokens = 0, loss_valid_tokens = 0, num_tokens = 0,
       normalized_chars_count = 0, normalized_bytes_count = 0 \<rparr>"

subsection \<open>\<open>tokenize_text\<close> and \<open>build_tokenized_answer\<close>\<close>

text \<open>
  \<^verbatim>\<open>
    full_tokenized = self.tokenize_text(prompt_response)
    prompt_input_ids = self.tokenize_text(prompt)["input_ids"]
    answer_input_ids = full_tokenized["input_ids"][len(prompt_input_ids) :]
    full_concat_input_ids = np.concatenate([prompt_input_ids, answer_input_ids])
    full_input_ids = np.array(full_tokenized["input_ids"])
    if len(full_input_ids) != len(full_concat_input_ids):
        raise ValueError(...)
    response_token_ids_start_idx = len(prompt_input_ids)
    if prompt_input_ids != full_tokenized["input_ids"][:response_token_ids_start_idx]:
        response_token_ids_start_idx -= 1
    prompt_input_ids = full_tokenized["input_ids"][:response_token_ids_start_idx]
    prompt_attention_mask = full_tokenized["attention_mask"][:response_token_ids_start_idx]
    if len(prompt_input_ids) != len(prompt_attention_mask):
        raise ValueError(...)
    answer_input_ids = full_tokenized["input_ids"][response_token_ids_start_idx:]
    answer_attention_mask = full_tokenized["attention_mask"][response_token_ids_start_idx:]
  \<close>
  The messages of the \<open>ValueError\<close>s of \<open>build_tokenized_answer\<close> and \<open>encode\<close>, and of
  \<open>np.stack\<close> on arrays of different shapes:
\<close>

definition tokenize_text :: "DPOTokenGenerator \<Rightarrow> string \<Rightarrow> int list \<times> int list" where
  "tokenize_text self txt =
     (case tokenizer self of
        Callable f \<Rightarrow> f txt
      | Encoder enc \<Rightarrow> (let token_ids = enc txt in (token_ids, replicate (length token_ids) 1)))"

definition concat_length_msg :: string where
  "concat_length_msg =
     ''Concatenated prompt-response and full prompt-response input ids should have the same length.''"

definition prompt_mask_length_msg :: string where
  "prompt_mask_length_msg = ''Prompt input ids and attention mask should have the same length.''"

definition prompts_differ_msg :: string where
  "prompts_differ_msg =
     ''Chosen and rejected prompt_input_ids might only differ on the last token due to tokenizer merge ops.''"

definition stack_shape_msg :: string where
  "stack_shape_msg = ''all input arrays must have the same shape''"

definition build_tokenized_answer ::
  "DPOTokenGenerator \<Rightarrow> string \<Rightarrow> string \<Rightarrow> error + answer_tokens" where
  "build_tokenized_answer self prompt prompt_response =
     (let full_tokenized = tokenize_text self prompt_response;
          prompt_ids = fst (tokenize_text self prompt);
          answer_ids = drop (length prompt_ids) (fst full_tokenized);
          full_concat_input_ids = prompt_ids @ answer_ids;
          full_input_ids = fst full_tokenized
      in if length full_input_ids \<noteq> length full_concat_input_ids
         then Inl (ValueError concat_length_msg)
         else
           let response_token_ids_start_idx =
                 (if prompt_ids \<noteq> take (length prompt_ids) (fst full_tokenized)
                  then int (length prompt_ids) - 1 else int (length prompt_ids));
               prompt_ids' = py_take (fst full_tokenized) response_token_ids_start_idx;
               prompt_mask = py_take (snd full_tokenized) response_token_ids_start_idx
           in if length prompt_ids' \<noteq> length prompt_mask
              then Inl (ValueError prompt_mask_length_msg)
              else Inr \<lparr> prompt_input_ids = prompt_ids',
                         prompt_attention_mask = prompt_mask,
                         input_ids = py_drop (fst full_tokenized) response_token_ids_start_idx,
                         attention_mask = py_drop (snd full_tokenized) response_token_ids_start_idx \<rparr>)"

subsection \<open>\<open>encode\<close>: from the document to the rendered strings\<close>

text \<open>
  \<open>format_chat\<close> and \<open>apply_chat_template\<close> are the two local functions of \<open>encode\<close>.
  In \<open>apply_chat_template\<close> a string becomes a one-message list (role \<open>user_role\<close> for
  the prompt, \<open>assistant_role\<close> for the answers); \<open>prompt_messages + chosen_messages\<close>
  with a prompt that is still \<open>None\<close> raises \<open>TypeError\<close>.
\<close>

fun format_chat :: "message list \<Rightarrow> string" where
  "format_chat [] = []"
| "format_chat (message # messages) =
     (if role message = ''user'' then ''[INST] '' @ content message @ '' [/INST] ''
      else if role message = ''system'' then ''<<SYS>> '' @ content message @ '' <</SYS>> ''
      else if role message = ''assistant'' then content message
      else []) @ format_chat messages"

definition as_messages :: "field_value \<Rightarrow> string \<Rightarrow> message list" where
  "as_messages t r = (case t of Str s \<Rightarrow> [\<lparr> role = r, content = s \<rparr>] | Msgs ms \<Rightarrow> ms)"

definition apply_chat_template ::
  "DPOTokenGenerator \<Rightarrow> field_value option \<Rightarrow> field_value \<Rightarrow> field_value \<Rightarrow> error + (string \<times> string)" where
  "apply_chat_template self prompt_messages chosen_messages rejected_messages =
     (let chosen_messages' = as_messages chosen_messages (assistant_role self);
          rejected_messages' = as_messages rejected_messages (assistant_role self)
      in case prompt_messages of
           None \<Rightarrow> Inl TypeError
         | Some p \<Rightarrow>
             let prompt_messages' = as_messages p (user_role self)
             in if can_apply_chat_template self
                then Inr (tokenizer_apply_chat_template self (chat_template self)
                            (prompt_messages' @ chosen_messages'),
                          tokenizer_apply_chat_template self (chat_template self)
                            (prompt_messages' @ rejected_messages'))
                else Inr (format_chat (prompt_messages' @ chosen_messages'),
                          format_chat (prompt_messages' @ rejected_messages')))"

text \<open>
  \<^verbatim>\<open>
    empty_fields = [field for field, value in zip(fields, values) if value == ""]
    ...
    if doc_field:
        logger.warning(f"{doc_field} is empty. Skipping this doc...")
        data_stats["discarded"] = 1
        return [], data_stats
  \<close>
  \<open>doc_field\<close> is a non-empty string exactly when \<open>empty_fields\<close> is not empty.
  A missing prompt is derived from \<open>chosen\<close> when both answers are strings:
  \<^verbatim>\<open>
    last_assistant_index = chosen.lower().rfind(self.assistant_role + ":")
    if last_assistant_index == -1:  (discard)
    else: prompt = chosen[: last_assistant_index + len(self.assistant_role) + 1]
  \<close>
  \<open>derive_prompt\<close> returns \<open>None\<close> for the discard. The strings are rendered by the
  tokenizer's template or \<open>format_chat\<close> on the answers alone when the prompt is present
  and both answers are lists of messages, and by \<open>apply_chat_template\<close> otherwise. The
  response delimiter (the configured one if it is a non-empty string, else the later of
  \<open>[/INST]\<close> and \<open><|assistant|>\<close>) is searched in the rendered chosen string.
\<close>

definition empty_fields :: "field_value \<Rightarrow> field_value \<Rightarrow> string list" where
  "empty_fields chosen rejected =
     map fst (filter (\<lambda>(field, v). v = Str []) [(''chosen'', chosen), (''rejected'', rejected)])"

definition derive_prompt ::
  "DPOTokenGenerator \<Rightarrow> field_value option \<Rightarrow> field_value \<Rightarrow> field_value \<Rightarrow> (field_value option) option" where
  "derive_prompt self prompt chosen rejected =
     (case prompt of
        Some p \<Rightarrow> Some (Some p)
      | None \<Rightarrow>
          (case (chosen, rejected) of
             (Str c, Str r) \<Rightarrow>
               let last_assistant_index = rfind (str_lower self c) (assistant_role self @ '':'')
               in if last_assistant_index = - 1 then None
                  else Some (Some (Str (py_take c
                         (last_assistant_index + int (length (assistant_role self)) + 1))))
           | _ \<Rightarrow> Some None))"

definition render ::
  "DPOTokenGenerator \<Rightarrow> field_value option \<Rightarrow> field_value \<Rightarrow> field_value \<Rightarrow> error + (string \<times> string)" where
  "render self prompt chosen rejected =
     (case (prompt, chosen, rejected) of
        (Some p, Msgs c, Msgs r) \<Rightarrow>
          if can_apply_chat_template self
          then Inr (tokenizer_apply_chat_template self None c, tokenizer_apply_chat_template self None r)
          else Inr (format_chat c, format_chat r)
      | _ \<Rightarrow> apply_chat_template self prompt chosen rejected)"

definition find_delimiter :: "DPOTokenGenerator \<Rightarrow> string \<Rightarrow> int" where
  "find_delimiter self prompt_chosen =
     (case response_delimiter self of
        Some d \<Rightarrow>
          if d \<noteq> [] then rfind prompt_chosen d
          else max (rfind prompt_chosen ''[/INST]'') (rfind prompt_chosen ''<|assistant|>'')
      | None \<Rightarrow> max (rfind prompt_chosen ''[/INST]'') (rfind prompt_chosen ''<|assistant|>''))"

text \<open>
  The first part of \<open>encode\<close> ends with the document discarded (\<open>return [], data_stats\<close>
  with \<open>discarded = 1\<close>) or with the prompt, the two rendered strings and the statistics
  so far. (\<open>prompt_tokens\<close>, which the source computes from the prompt and truncates
  alongside, is never read for the result and is left out; the test
  \<open>isinstance(prompt, str)\<close> is on a slice of a string and cannot fail.)
\<close>

definition encode_texts ::
  "DPOTokenGenerator \<Rightarrow> field_value option \<times> field_value \<times> field_value \<Rightarrow>
   error + (string \<times> string \<times> string \<times> data_stats) step" where
  "encode_texts self doc =
     (case doc of (prompt, chosen, rejected) \<Rightarrow>
        let data_stats = initial_data_stats in
        if empty_fields chosen rejected \<noteq> [] then Inr (Discard (data_stats\<lparr>discarded := 1\<rparr>))
        else
          case derive_prompt self prompt chosen rejected of
            None \<Rightarrow> Inr (Discard (data_stats\<lparr>discarded := 1\<rparr>))
          | Some prompt' \<Rightarrow>
              (case render self prompt' chosen rejected of
                 Inl e \<Rightarrow> Inl e
               | Inr (prompt_chosen, prompt_rejected) \<Rightarrow>
                   let raw_chars = int (length prompt_chosen) + int (length prompt_rejected);
                       raw_bytes = int (utf8_len self prompt_chosen) + int (utf8_len self prompt_rejected);
                       data_stats = data_stats\<lparr>raw_chars_count := raw_chars, raw_bytes_count := raw_bytes,
                                      normalized_chars_count := raw_chars,
                                      normalized_bytes_count := raw_bytes\<rparr>;
                       prompt_chosen = (if use_ftfy self then fix_text self prompt_chosen else prompt_chosen);
                       prompt_rejected = (if use_ftfy self then fix_text self prompt_rejected else prompt_rejected);
                       prompt_chosen = (if wikitext_detokenize self
                                        then wikitext_detokenizer self prompt_chosen else prompt_chosen);
                       prompt_rejected = (if wikitext_detokenize self
                                          then wikitext_detokenizer self prompt_rejected else prompt_rejected);
                       data_stats =
                         (if use_ftfy self \<or> wikitext_detokenize self
                          then data_stats\<lparr>
                                 normalized_chars_count :=
                                   int (length prompt_chosen) + int (length prompt_rejected),
                                 normalized_bytes_count :=
                                   int (utf8_len self prompt_chosen) + int (utf8_len self prompt_rejected)\<rparr>
                          else data_stats);
                       last_assistant_index = find_delimiter self prompt_chosen
                   in if last_assistant_index = - 1
                      then Inr (Discard (data_stats\<lparr>discarded := 1\<rparr>))
                      else Inr (Continue (py_take prompt_chosen last_assistant_index,
                                          prompt_chosen, prompt_rejected, data_stats))))"

subsection \<open>\<open>encode\<close>: from the rendered strings to the batch\<close>

text \<open>
  \<^verbatim>\<open>
    num_diff_tokens = sum([a != b for a, b in zip(chosen_tokens["prompt_input_ids"],
                                                  rejected_tokens["prompt_input_ids"])])
    num_diff_len = abs(chosen_prompt_len_input_ids - rejected_prompt_len_input_ids)
    if num_diff_tokens > 1 or num_diff_len > 1:
        raise ValueError("Chosen and rejected prompt_input_ids might only differ on the "
                         "last token due to tokenizer merge ops.")
  \<close>
  Then the begin-of-sequence token is put before the prompts unless the tokenizer adds it,
  the end-of-sequence token is appended to the answers' \<open>input_ids\<close> (not to their masks),
  and with \<open>truncation_mode = "keep_end"\<close> the prompts are cut to their last
  \<open>max_prompt_length\<close> tokens and then the answers to their first
  \<open>max_seq_length - max_prompt_length\<close> tokens, each when prompt plus longer answer exceed
  \<open>max_seq_length\<close>.
\<close>

definition num_diff_tokens :: "answer_tokens \<Rightarrow> answer_tokens \<Rightarrow> nat" where
  "num_diff_tokens chosen_tokens rejected_tokens =
     length (filter (\<lambda>(a, b). a \<noteq> b)
               (zip (prompt_input_ids chosen_tokens) (prompt_input_ids rejected_tokens)))"

definition num_diff_len :: "answer_tokens \<Rightarrow> answer_tokens \<Rightarrow> int" where
  "num_diff_len chosen_tokens rejected_tokens =
     \<bar>int (length (prompt_input_ids chosen_tokens)) - int (length (prompt_input_ids rejected_tokens))\<bar>"

definition add_bos :: "DPOTokenGenerator \<Rightarrow> answer_tokens \<Rightarrow> answer_tokens" where
  "add_bos self t =
     (if \<not> add_bos_token self
      then t\<lparr>prompt_input_ids := bos_token_id self # prompt_input_ids t,
              prompt_attention_mask := 1 # prompt_attention_mask t\<rparr>
      else t)"

definition add_eos :: "DPOTokenGenerator \<Rightarrow> answer_tokens \<Rightarrow> answer_tokens" where
  "add_eos self t = t\<lparr>input_ids := input_ids t @ [eos_id self]\<rparr>"

definition truncate_prompt :: "DPOTokenGenerator \<Rightarrow> int \<Rightarrow> answer_tokens \<Rightarrow> answer_tokens" where
  "truncate_prompt self longer_response_length t =
     (if int (length (prompt_input_ids t)) + longer_response_length > max_seq_length self
      then t\<lparr>prompt_input_ids := py_drop (prompt_input_ids t) (- max_prompt_length self),
              prompt_attention_mask := py_drop (prompt_attention_mask t) (- max_prompt_length self)\<rparr>
      else t)"

definition truncate_response :: "DPOTokenGenerator \<Rightarrow> int \<Rightarrow> answer_tokens \<Rightarrow> answer_tokens" where
  "truncate_response self longer_response_length t =
     (if int (length (prompt_input_ids t)) + longer_response_length > max_seq_length self
      then t\<lparr>input_ids := py_take (input_ids t) (max_seq_length self - max_prompt_length self),
              attention_mask := py_take (attention_mask t) (max_seq_length self - max_prompt_length self)\<rparr>
      else t)"

text \<open>
  Labels are the input ids shifted by one, with the pad id over the prompt:
  \<^verbatim>\<open>
    chosen_sequence_tokens["labels"] = chosen_sequence_tokens["input_ids"][1:]
    chosen_sequence_tokens["labels"][: len(chosen_tokens["prompt_input_ids"]) - 1] = \
        [self.pad_id] * (len(chosen_tokens["prompt_input_ids"]) - 1)
  \<close>
  Every list is copied into a list of \<open>max_seq_length\<close> pad values
  (\<open>padded_tokens[: len(tokens)] = tokens\<close>), the attention masks are zeroed over the
  prompt, and \<open>np.stack\<close> raises \<open>ValueError\<close> unless the six arrays have one length.
\<close>

record sequence_tokens =
  seq_input_ids :: "int list"
  seq_attention_mask :: "int list"
  seq_labels :: "int list"

definition make_sequence_tokens :: "DPOTokenGenerator \<Rightarrow> answer_tokens \<Rightarrow> sequence_tokens" where
  "make_sequence_tokens self t =
     (let ids = prompt_input_ids t @ input_ids t;
          msk = prompt_attention_mask t @ attention_mask t;
          n = int (length (prompt_input_ids t)) - 1
      in \<lparr> seq_input_ids = ids,
           seq_attention_mask = msk,
           seq_labels = py_assign_prefix (tl ids) n (py_repeat (pad_id self) n) \<rparr>)"

definition pad_tokens :: "DPOTokenGenerator \<Rightarrow> int \<Rightarrow> int list \<Rightarrow> int list" where
  "pad_tokens self pad_value toks =
     (let padded_tokens = py_repeat pad_value (max_seq_length self)
      in py_assign_prefix padded_tokens (int (length toks)) toks)"

definition mask_prompt :: "int list \<Rightarrow> answer_tokens \<Rightarrow> int list" where
  "mask_prompt batch_mask t =
     (let n = int (length (prompt_input_ids t)) - 1
      in py_assign_prefix batch_mask n (py_repeat 0 n))"

definition np_stack :: "int list list \<Rightarrow> error + int list list" where
  "np_stack arrays =
     (if list_all (\<lambda>a. length a = length (hd arrays)) arrays then Inr arrays
      else Inl (ValueError stack_shape_msg))"

definition prepare_tokens ::
  "DPOTokenGenerator \<Rightarrow> answer_tokens \<Rightarrow> answer_tokens \<Rightarrow> answer_tokens \<times> answer_tokens" where
  "prepare_tokens self chosen_tokens0 rejected_tokens0 =
     (let chosen_tokens = add_eos self (add_bos self chosen_tokens0);
          rejected_tokens = add_eos self (add_bos self rejected_tokens0);
          longer_response_length =
            max (int (length (input_ids chosen_tokens))) (int (length (input_ids rejected_tokens)));
          chosen_tokens = truncate_prompt self longer_response_length chosen_tokens;
          rejected_tokens = truncate_prompt self longer_response_length rejected_tokens;
          chosen_tokens = truncate_response self longer_response_length chosen_tokens;
          rejected_tokens = truncate_response self longer_response_length rejected_tokens
      in (chosen_tokens, rejected_tokens))"

definition make_batch ::
  "DPOTokenGenerator \<Rightarrow> answer_tokens \<Rightarrow> answer_tokens \<Rightarrow> int list list" where
  "make_batch self chosen_tokens rejected_tokens =
     (let chosen_sequence_tokens = make_sequence_tokens self chosen_tokens;
          rejected_sequence_tokens = make_sequence_tokens self rejected_tokens
      in [pad_tokens self (pad_id self) (seq_input_ids chosen_sequence_tokens),
          mask_prompt (pad_tokens self 0 (seq_attention_mask chosen_sequence_tokens)) chosen_tokens,
          pad_tokens self (pad_id self) (seq_labels chosen_sequence_tokens),
          pad_tokens self (pad_id self) (seq_input_ids rejected_sequence_tokens),
          mask_prompt (pad_tokens self 0 (seq_attention_mask rejected_sequence_tokens)) rejected_tokens,
          pad_tokens self (pad_id self) (seq_labels rejected_sequence_tokens)])"

definition total_pad_tokens :: "DPOTokenGenerator \<Rightarrow> answer_tokens \<Rightarrow> answer_tokens \<Rightarrow> int" where
  "total_pad_tokens self chosen_tokens rejected_tokens =
     (let chosen_sequence_tokens = make_sequence_tokens self chosen_tokens;
          rejected_sequence_tokens = make_sequence_tokens self rejected_tokens
      in sum_list (map (\<lambda>toks. max_seq_length self - int (length toks))
           [seq_input_ids chosen_sequence_tokens, seq_attention_mask chosen_sequence_tokens,
            seq_labels chosen_sequence_tokens,
            seq_input_ids rejected_sequence_tokens, seq_attention_mask rejected_sequence_tokens,
            seq_labels rejected_sequence_tokens]))"

definition total_loss_valid_tokens ::
  "int list list \<Rightarrow> answer_tokens \<Rightarrow> answer_tokens \<Rightarrow> int" where
  "total_loss_valid_tokens batch chosen_tokens rejected_tokens =
     int (length (batch ! 1)) - (int (length (prompt_input_ids chosen_tokens)) - 1)
     + int (length (batch ! 4)) - (int (length (prompt_input_ids rejected_tokens)) - 1)"

definition encode_batch ::
  "DPOTokenGenerator \<Rightarrow> answer_tokens \<Rightarrow> answer_tokens \<Rightarrow> data_stats \<Rightarrow>
   error + (int list list list \<times> data_stats)" where
  "encode_batch self chosen_tokens0 rejected_tokens0 data_stats =
     (case prepare_tokens self chosen_tokens0 rejected_tokens0 of
        (chosen_tokens, rejected_tokens) \<Rightarrow>
          let batch = make_batch self chosen_tokens rejected_tokens;
              loss_valid = total_loss_valid_tokens batch chosen_tokens rejected_tokens;
              total_masked_tokens = 2 * max_seq_length self - loss_valid
          in case np_stack batch of
               Inl e \<Rightarrow> Inl e
             | Inr stacked_batch \<Rightarrow>
                 Inr ([stacked_batch],
                      data_stats\<lparr>successful := 1,
                                   num_pad_tokens := total_pad_tokens self chosen_tokens rejected_tokens,
                                   num_masked_tokens := total_masked_tokens,
                                   loss_valid_tokens := loss_valid,
                                   num_tokens := 6 * max_seq_length self\<rparr>))"

definition encode_tokens ::
  "DPOTokenGenerator \<Rightarrow> string \<Rightarrow> string \<Rightarrow> string \<Rightarrow> data_stats \<Rightarrow>
   error + (int list list list \<times> data_stats)" where
  "encode_tokens self prompt prompt_chosen prompt_rejected data_stats =
     (case build_tokenized_answer self prompt prompt_chosen of
        Inl e \<Rightarrow> Inl e
      | Inr chosen_tokens \<Rightarrow>
          (case build_tokenized_answer self prompt prompt_rejected of
             Inl e \<Rightarrow> Inl e
           | Inr rejected_tokens \<Rightarrow>
               if num_diff_tokens chosen_tokens rejected_tokens > 1
                  \<or> num_diff_len chosen_tokens rejected_tokens > 1
               then Inl (ValueError prompts_differ_msg)
               else encode_batch self chosen_tokens rejected_tokens data_stats))"

definition encode ::
  "DPOTokenGenerator \<Rightarrow> field_value option \<times> field_value \<times> field_value \<Rightarrow>
   error + (int list list list \<times> data_stats)" where
  "encode self doc =
     (case encode_texts self doc of
        Inl e \<Rightarrow> Inl e
      | Inr (Discard data_stats) \<Rightarrow> Inr ([], data_stats)
      | Inr (Continue (prompt, prompt_chosen, prompt_rejected, data_stats)) \<Rightarrow>
          encode_tokens self prompt prompt_chosen prompt_rejected data_stats)"

subsection \<open>Example generator and documents\<close>

text \<open>
  A generator whose tokenizer has one token per character and no chat template, a document
  of three strings, and a document whose two conversations have different user turns.
\<close>

definition char_tokenizer :: "string \<Rightarrow> int list" where
  "char_tokenizer s = map (\<lambda>c. int (of_char c)) s"

definition no_template :: "string option \<Rightarrow> message list \<Rightarrow> string" where
  "no_template t ms = []"

definition example_doc :: "field_value option \<times> field_value \<times> field_value" where
  "example_doc = (Some (Str ''Hi''), Str ''yes'', Str ''no'')"

definition example_generator :: DPOTokenGenerator where
  "example_generator =
     \<lparr> tokenizer = Encoder char_tokenizer,
       can_apply_chat_template = False,
       tokenizer_apply_chat_template = no_template,
       chat_template = None,
       use_ftfy = False,
       fix_text = id,
       wikitext_detokenize = False,
       wikitext_detokenizer = id,
       user_role = ''user'',
       assistant_role = ''assistant'',
       response_delimiter = None,
       max_seq_length = 12,
       max_prompt_length = 4,
       eos_id = 0,
       pad_id = 1,
       bos_token_id = 2,
       add_bos_token = False,
       str_lower = id,
       utf8_len = length \<rparr>"

definition differing_doc :: "field_value option \<times> field_value \<times> field_value" where
  "differing_doc =
     (Some (Str ''p''),
      Msgs [\<lparr> role = ''user'', content = ''ab'' \<rparr>, \<lparr> role = ''assistant'', content = ''x'' \<rparr>],
      Msgs [\<lparr> role = ''user'', content = ''cd'' \<rparr>, \<lparr> role = ''assistant'', content = ''y'' \<rparr>])"

section \<open>Theorems\<close>

subsection \<open>Process topology\<close>

text \<open>
  C3 (as stated): with a process count of 5 and shuffling disabled the role-split topology
  runs 4 tokenizer processes. The code computes \<open>5 - 1 - 1 = 3\<close>.
\<close>

theorem role_split_five_tokenizers_counterexample:
  "tokenizers (task_split_process_dataset 5 False) \<noteq> 4"
  by (simp add: task_split_process_dataset_def tokenize_process_num_def writer_process_num_def)

text \<open>
  C3 (amended): \<open>process_dataset\<close> selects the file-split topology exactly when the process
  count is less than 3; for a process count of 5 with shuffling disabled the role-split
  topology runs with one reader, \<open>ceil(4/10) = 1\<close> writer process and 3 tokenizer processes,
  and reader, writers and tokenizers add up to the process count.
\<close>

theorem process_dataset_topology:
  "(process_dataset processes = file_split) = (processes < 3)
   \<and> process_dataset 5 = task_split
   \<and> task_split_process_dataset 5 False = \<lparr> readers = 1, tokenizers = 3, writers = 1 \<rparr>
   \<and> writer_process_num 5 False = 1
   \<and> 1 + writer_process_num 5 False + tokenize_process_num 5 False = 5"
  by (simp add: process_dataset_def task_split_process_dataset_def tokenize_process_num_def
      writer_process_num_def)

subsection \<open>Checkpoint round trip\<close>

lemma digit_char_is_digit: "d < 10 \<Longrightarrow> is_digit (digit_char d)"
  by (simp add: is_digit_def digit_char_def)

lemma digit_val_digit_char: "d < 10 \<Longrightarrow> digit_val (digit_char d) = d"
  by (simp add: digit_val_def digit_char_def)

lemma str_nat_digits: "list_all is_digit (str_nat n)"
proof (induction n rule: str_nat.induct)
  case (1 n)
  show ?case
  proof (cases "n < 10")
    case True
    then show ?thesis by (subst str_nat.simps) (simp add: digit_char_is_digit)
  next
    case False
    with 1 show ?thesis
      by (subst str_nat.simps) (simp add: digit_char_is_digit)
  qed
qed

lemma str_nat_nonempty: "str_nat n \<noteq> []"
  by (subst str_nat.simps) simp

lemma digits_val_snoc: "digits_val (ds @ [c]) = 10 * digits_val ds + digit_val c"
  by (simp add: digits_val_def)

lemma digits_val_str_nat: "digits_val (str_nat n) = n"
proof (induction n rule: str_nat.induct)
  case (1 n)
  show ?case
  proof (cases "n < 10")
    case True
    then show ?thesis by (subst str_nat.simps) (simp add: digits_val_def digit_val_digit_char)
  next
    case False
    with 1 have "digits_val (str_nat (n div 10)) = n div 10" by simp
    with False show ?thesis
      by (subst str_nat.simps) (simp add: digits_val_snoc digit_val_digit_char)
  qed
qed

lemma is_digit_not_space: "is_digit c \<Longrightarrow> \<not> is_space c"
  by (auto simp: is_digit_def is_space_def)

lemma is_digit_not_sign: "is_digit c \<Longrightarrow> c \<noteq> CHR ''-'' \<and> c \<noteq> CHR ''+'' \<and> c \<noteq> CHR '',''"
  by (auto simp: is_digit_def)

lemma dropWhile_id: "s = [] \<or> \<not> P (hd s) \<Longrightarrow> dropWhile P s = s"
  by (cases s) auto

lemma strip_id:
  assumes "s \<noteq> []" "\<not> is_space (hd s)" "\<not> is_space (last s)"
  shows "py_strip s = s"
proof -
  have "dropWhile is_space s = s" using assms by (simp add: dropWhile_id)
  moreover have "dropWhile is_space (rev s) = rev s"
    using assms by (simp add: dropWhile_id hd_rev)
  ultimately show ?thesis by (simp add: py_strip_def)
qed

lemma str_nat_hd_last: "is_digit (hd (str_nat n)) \<and> is_digit (last (str_nat n))"
  using str_nat_digits [of n] str_nat_nonempty [of n]
  by (cases "str_nat n") (auto simp: list_all_iff)

lemma int_of_digits_str_nat: "int_of_digits (str_nat n) = Inr n"
  by (simp add: int_of_digits_def str_nat_nonempty str_nat_digits digits_val_str_nat)

lemma py_int_str_nat: "py_int (str_nat n) = Inr (int n)"
proof -
  have s: "py_strip (str_nat n) = str_nat n"
    using str_nat_hd_last [of n] by (intro strip_id) (auto simp: str_nat_nonempty is_digit_not_space)
  obtain c cs where e: "str_nat n = c # cs" using str_nat_nonempty [of n] by (cases "str_nat n") auto
  then have "is_digit c" using str_nat_hd_last [of n] by simp
  then have "c \<noteq> CHR ''-''" "c \<noteq> CHR ''+''" using is_digit_not_sign by auto
  moreover have "py_strip (c # cs) = c # cs" using s e by simp
  moreover have "int_of_digits (c # cs) = Inr n" using int_of_digits_str_nat [of n] e by simp
  ultimately show ?thesis
    by (simp add: py_int_def e)
qed

lemma py_int_minus_str_nat: "py_int (CHR ''-'' # str_nat n) = Inr (- int n)"
proof -
  have "\<not> is_space (CHR ''-'')" by (simp add: is_space_def)
  then have s: "py_strip (CHR ''-'' # str_nat n) = CHR ''-'' # str_nat n"
    using str_nat_hd_last [of n] by (intro strip_id) (auto simp: str_nat_nonempty is_digit_not_space)
  show ?thesis by (simp add: py_int_def s int_of_digits_str_nat)
qed

lemma py_int_str_int: "py_int (str_int i) = Inr i"
  by (simp add: str_int_def py_int_str_nat py_int_minus_str_nat)

lemma str_int_no_comma: "CHR '','' \<notin> set (str_int i)"
proof -
  have "CHR '','' \<notin> set (str_nat n)" for n
    using str_nat_digits [of n] is_digit_not_sign by (auto simp: list_all_iff)
  then show ?thesis by (simp add: str_int_def)
qed

lemma split_from_last: "CHR '','' \<notin> set xs \<Longrightarrow> split_from '', '' cur xs = [cur @ xs]"
  by (induction xs arbitrary: cur) auto

lemma split_from_sep:
  "CHR '','' \<notin> set xs \<Longrightarrow>
   split_from '', '' cur (xs @ '', '' @ rest) = (cur @ xs) # split_from '', '' [] rest"
  by (induction xs arbitrary: cur) auto

lemma split_checkpoint_line:
  "py_split (checkpoint_line (a, b, c, d, e)) '', '' =
     Inr [str_int a, str_int b, str_int c, str_int d, str_int e]"
  using split_from_sep [OF str_int_no_comma, of "[]"] split_from_last [OF str_int_no_comma, of "[]"]
  by (simp add: py_split_def checkpoint_line_def del: split_from.simps)

lemma parse_checkpoint_line: "parse_checkpoint (checkpoint_line d) = Inr d"
  by (cases d) (simp add: parse_checkpoint_def split_checkpoint_line py_int_str_int)

text \<open>
  C9: for every 5-tuple of integers, \<open>update_checkpoint\<close> writes one line to the
  worker's checkpoint file; parsing that line as \<open>read_checkpoint\<close> does (splitting on
  comma-space, converting each part with \<open>int\<close>) yields the same 5-tuple, and so does
  \<open>read_checkpoint\<close> itself for that worker when resuming.
\<close>

theorem checkpoint_roundtrip:
  "update_checkpoint files pid d pid = Some (checkpoint_line d)
   \<and> parse_checkpoint (checkpoint_line d) = Inr d
   \<and> (pid < num_writers \<longrightarrow>
        read_checkpoint True (update_checkpoint files pid d) num_writers ! pid = d)"
  by (simp add: read_checkpoint_def update_checkpoint_def parse_checkpoint_line)

theorem checkpoint_roundtrip_witness:
  "parse_checkpoint (checkpoint_line (3, - 12, 0, 100, 7)) = Inr (3, - 12, 0, 100, 7)
   \<and> read_checkpoint True (update_checkpoint Map.empty 1 (3, - 12, 0, 100, 7)) 3 ! 1
       = (3, - 12, 0, 100, 7)"
  using checkpoint_roundtrip [of Map.empty 1 "(3, - 12, 0, 100, 7)" 3] by simp

subsection \<open>The truncation loop\<close>

lemma total_len_sum: "total_len s = sum_list (map tokens s)"
  by (induction s) (simp_all add: total_len_def flatten_2d_def tokens_def)

lemma sum_list_map_update:
  "i < length xs \<Longrightarrow> sum_list (map f (xs[i := x])) + f (xs ! i) = sum_list (map f xs) + (f x :: nat)"
  by (induction xs arbitrary: i) (auto split: nat.splits)

lemma total_len_update:
  "i < length s \<Longrightarrow> total_len (s[i := seg]) + tokens (s ! i) = total_len s + tokens seg"
  by (simp add: total_len_sum sum_list_map_update)

lemma tokens_update:
  "k < length seg \<Longrightarrow> tokens (seg[k := xs]) + length (seg ! k) = tokens seg + length xs"
  by (simp add: tokens_def length_concat sum_list_map_update)

lemma length_pop: "xs \<noteq> [] \<Longrightarrow> Suc (length (pop p xs)) = length xs"
  by (cases xs) (auto simp: pop_def)

lemma total_len_pop:
  assumes "i < length s" "k < length (s ! i)" "s ! i ! k \<noteq> []"
  shows "Suc (total_len (s[i := (s ! i)[k := pop p (s ! i ! k)]])) = total_len s"
  using total_len_update [OF assms(1), of "(s ! i)[k := pop p (s ! i ! k)]"]
    tokens_update [OF assms(2), of "pop p (s ! i ! k)"] length_pop [OF assms(3), of p]
  by linarith

lemma next_index_less: "i < n \<Longrightarrow> (i + 1) mod n < (n::nat)"
  by (cases "n = 0") simp_all

lemma state_ok_pop:
  "loop_state_ok s r i \<Longrightarrow>
   loop_state_ok (s[i := (s ! i)[k := xs]]) r ((i + 1) mod length s)"
  using next_index_less [of i "length s"]
  by (auto simp: loop_state_ok_def list_all_length nth_list_update)

lemma state_ok_switch:
  "loop_state_ok s r i \<Longrightarrow>
   loop_state_ok s (r[i := (r ! i + 1) mod 3]) ((i + 1) mod length s)"
  using next_index_less [of i "length s"]
  by (auto simp: loop_state_ok_def list_all_length nth_list_update)

lemma regions_ok_pop:
  assumes "loop_state_ok s r i" "regions_ok s r"
  shows "regions_ok (s[i := (s ! i)[r ! i := xs]]) r"
  using assms
  by (auto simp: regions_ok_def loop_state_ok_def list_all_length nth_list_update)

lemma regions_ok_switch:
  assumes "loop_state_ok s r i" "regions_ok s r" "s ! i ! (r ! i) = []"
  shows "regions_ok s (r[i := (r ! i + 1) mod 3])"
proof -
  have "r ! i < 3" using assms(1) by (auto simp: loop_state_ok_def list_all_length)
  then consider "r ! i = 0" | "r ! i = 1" | "r ! i = 2" by linarith
  then show ?thesis
    using assms by cases (auto simp: regions_ok_def loop_state_ok_def nth_list_update)
qed

lemma ordered_trunc_refl: "length x = 3 \<Longrightarrow> ordered_trunc x x"
  by (simp add: ordered_trunc_def)

lemma ordered_trunc_pop:
  assumes "length x = 3" "k < 3"
    and "k = 0 \<longrightarrow> x ! 2 = []" "k = 1 \<longrightarrow> x ! 2 = [] \<and> x ! 0 = []"
    and "ordered_trunc (x[k := pop (if k = 2 then - 1 else 0) (x ! k)]) y"
  shows "ordered_trunc x y"
proof -
  consider "k = 0" | "k = 1" | "k = 2" using assms(2) by linarith
  then show ?thesis
  proof cases
    case 1
    then have "suffix (y ! 0) (tl (x ! 0))" "prefix (y ! 2) []"
      using assms by (auto simp: ordered_trunc_def pop_def)
    then have "suffix (y ! 0) (x ! 0)" "y ! 2 = []"
      using suffix_order.trans [OF _ suffix_tl] by auto
    then show ?thesis using assms 1 by (auto simp: ordered_trunc_def)
  next
    case 2
    then have "suffix (y ! 1) (tl (x ! 1))" "prefix (y ! 2) []" "suffix (y ! 0) []"
      using assms by (auto simp: ordered_trunc_def pop_def)
    then have "suffix (y ! 1) (x ! 1)" "y ! 2 = []" "y ! 0 = []"
      using suffix_order.trans [OF _ suffix_tl] by auto
    then show ?thesis using assms 2 by (auto simp: ordered_trunc_def)
  next
    case 3
    then have "prefix (y ! 2) (butlast (x ! 2))"
      using assms by (auto simp: ordered_trunc_def pop_def)
    then have "prefix (y ! 2) (x ! 2)"
      using prefix_order.trans [OF _ prefixeq_butlast] by auto
    then show ?thesis using assms 3 by (auto simp: ordered_trunc_def)
  qed
qed

lemma loop_post_pop:
  assumes ok: "loop_state_ok s r i" and reg: "regions_ok s r"
    and ne: "s ! i ! (r ! i) \<noteq> []"
    and post: "loop_post (s[i := (s ! i)[r ! i := pop (if r ! i = 2 then - 1 else 0) (s ! i ! (r ! i))]]) (d - 1) y"
  shows "loop_post s d y"
proof -
  let ?k = "r ! i"
  let ?seg = "(s ! i)[?k := pop (if ?k = 2 then - 1 else 0) (s ! i ! ?k)]"
  have i: "i < length s" and k: "?k < 3" and len: "length (s ! i) = 3"
    using ok by (auto simp: loop_state_ok_def list_all_length)
  from post obtain s' where y: "y = Inr s'" and d: "0 \<le> d - 1"
    and tot: "int (total_len s') + (d - 1) = int (total_len (s[i := ?seg]))"
    and l: "length s' = length s"
    and tr: "\<forall>j < length s. ordered_trunc (s[i := ?seg] ! j) (s' ! j)"
    by (auto simp: loop_post_def)
  have "Suc (total_len (s[i := ?seg])) = total_len s"
    using total_len_pop [OF i _ ne] k len by simp
  with tot have tot': "int (total_len s') + d = int (total_len s)" by linarith
  have "ordered_trunc (s ! j) (s' ! j)" if j: "j < length s" for j
  proof (cases "j = i")
    case True
    have "ordered_trunc ?seg (s' ! i)" using tr i by (auto simp: nth_list_update)
    then have "ordered_trunc (s ! i) (s' ! i)"
      using reg i by (intro ordered_trunc_pop [OF len k]) (auto simp: regions_ok_def)
    with True show ?thesis by simp
  next
    case False
    then show ?thesis using tr j by (auto simp: nth_list_update)
  qed
  with y d tot' l show ?thesis by (auto simp: loop_post_def)
qed

lemma truncate_loop_partial:
  assumes "truncate_loop s r i d = Some y"
  shows "loop_state_ok s r i \<longrightarrow> regions_ok s r \<longrightarrow> loop_post s d y"
  using assms
proof (induction rule: truncate_loop.raw_induct [rotated 1, consumes 1])
  case (1 truncate_loop s r i d y)
  show ?case
  proof (intro impI)
    assume ok: "loop_state_ok s r i" and reg: "regions_ok s r"
    have i: "i < length s" "i < length r" and k: "r ! i < length (s ! i)"
      and all3: "\<forall>j < length s. length (s ! j) = 3"
      using ok by (auto simp: loop_state_ok_def list_all_length)
    show "loop_post s d y"
    proof (cases "d = 0")
      case True
      with 1(2) have "y = Inr s" by simp
      with True all3 show ?thesis by (simp add: loop_post_def ordered_trunc_refl)
    next
      case d: False
      show ?thesis
      proof (cases "s ! i ! (r ! i) = []")
        case True
        with 1(2) d i k have
          "truncate_loop s (r[i := (r ! i + 1) mod 3]) ((i + 1) mod length s) d = Some y"
          by (simp add: Let_def)
        from 1(1) [OF this] state_ok_switch [OF ok] regions_ok_switch [OF ok reg True]
        show ?thesis by simp
      next
        case False
        with 1(2) d i k have
          "truncate_loop (s[i := (s ! i)[r ! i := pop (if r ! i = 2 then - 1 else 0) (s ! i ! (r ! i))]])
             r ((i + 1) mod length s) (d - 1) = Some y"
          by (simp add: Let_def)
        from 1(1) [OF this] state_ok_pop [OF ok] regions_ok_pop [OF ok reg]
        have "loop_post (s[i := (s ! i)[r ! i := pop (if r ! i = 2 then - 1 else 0) (s ! i ! (r ! i))]]) (d - 1) y"
          by simp
        from loop_post_pop [OF ok reg False this] show ?thesis .
      qed
    qed
  qed
qed

lemma length3E:
  assumes "length (seg :: segment) = 3"
  obtains a b c where "seg = [a, b, c]"
  using assms by (auto simp: length_Suc_conv numeral_3_eq_3)

lemma debt_switch_less:
  assumes "length seg = 3" "k < 3" "seg ! k = []" "tokens seg \<noteq> 0"
  shows "debt seg ((k + 1) mod 3) < debt seg k"
proof -
  obtain a b c where seg: "seg = [a, b, c]" using assms(1) by (rule length3E)
  consider "k = 0" | "k = 1" | "k = 2" using assms(2) by linarith
  then show ?thesis
    using assms(3,4) by cases (auto simp: seg debt_def tokens_def)
qed

lemma debt_empty:
  assumes "length seg = 3" "k < 3" "tokens seg = 0"
  shows "debt seg k = 0"
proof -
  obtain a b c where seg: "seg = [a, b, c]" using assms(1) by (rule length3E)
  consider "k = 0" | "k = 1" | "k = 2" using assms(2) by linarith
  then show ?thesis
    using assms(3) by cases (auto simp: seg debt_def tokens_def)
qed

lemma debt_sum_switch_less:
  assumes ok: "loop_state_ok s r i" and e: "s ! i ! (r ! i) = []" and ne: "tokens (s ! i) \<noteq> 0"
  shows "debt_sum s (r[i := (r ! i + 1) mod 3]) < debt_sum s r"
proof -
  have i: "i < length s" "i < length r" and k: "r ! i < 3" and len: "length (s ! i) = 3"
    using ok by (auto simp: loop_state_ok_def list_all_length)
  show ?thesis
    unfolding debt_sum_def
  proof (rule sum_strict_mono_ex1)
    show "finite {..<length s}" by simp
    show "\<forall>j\<in>{..<length s}. debt (s ! j) (r[i := (r ! i + 1) mod 3] ! j) \<le> debt (s ! j) (r ! j)"
      using debt_switch_less [OF len k e ne] i by (auto simp: nth_list_update)
    show "\<exists>j\<in>{..<length s}. debt (s ! j) (r[i := (r ! i + 1) mod 3] ! j) < debt (s ! j) (r ! j)"
      using debt_switch_less [OF len k e ne] i by (intro bexI [of _ i]) auto
  qed
qed

lemma debt_sum_switch_eq:
  assumes ok: "loop_state_ok s r i" and z: "tokens (s ! i) = 0"
  shows "debt_sum s (r[i := (r ! i + 1) mod 3]) = debt_sum s r"
proof -
  have i: "i < length s" "i < length r" and k: "r ! i < 3" and len: "length (s ! i) = 3"
    using ok by (auto simp: loop_state_ok_def list_all_length)
  have "debt (s ! j) (r[i := (r ! i + 1) mod 3] ! j) = debt (s ! j) (r ! j)" if "j < length s" for j
    using debt_empty [OF len _ z] k i by (cases "j = i") (auto simp: nth_list_update)
  then show ?thesis by (simp add: debt_sum_def)
qed

lemma dist_step_less:
  assumes i: "i < length s" and z: "tokens (s ! i) = 0" and ex: "\<exists>j < length s. tokens (s ! j) \<noteq> 0"
  shows "scan_dist s ((i + 1) mod length s) < scan_dist s i"
proof (cases "i + 1 < length s")
  case True
  then have m: "(i + 1) mod length s = i + 1" by simp
  show ?thesis
  proof (cases "\<exists>j. i \<le> j \<and> j < length s \<and> tokens (s ! j) \<noteq> 0")
    case ex1: True
    then obtain j where j: "i \<le> j" "j < length s" "tokens (s ! j) \<noteq> 0" by blast
    with z have "j \<noteq> i" by auto
    with j have "i + 1 \<le> j \<and> j < length s \<and> tokens (s ! j) \<noteq> 0" by simp
    then have ex2: "\<exists>j. i + 1 \<le> j \<and> j < length s \<and> tokens (s ! j) \<noteq> 0" by blast
    have "scan_dist s (i + 1) = length s - (i + 1)" unfolding scan_dist_def using ex2 by (rule if_P)
    moreover have "scan_dist s i = length s - i" unfolding scan_dist_def using ex1 by (rule if_P)
    ultimately show ?thesis using True m by simp
  next
    case ex1: False
    have ex2: "\<not> (\<exists>j. i + 1 \<le> j \<and> j < length s \<and> tokens (s ! j) \<noteq> 0)"
    proof
      assume "\<exists>j. i + 1 \<le> j \<and> j < length s \<and> tokens (s ! j) \<noteq> 0"
      then obtain j where "i + 1 \<le> j" "j < length s" "tokens (s ! j) \<noteq> 0" by blast
      then have "i \<le> j \<and> j < length s \<and> tokens (s ! j) \<noteq> 0" by simp
      with ex1 show False by blast
    qed
    have "scan_dist s (i + 1) = 2 * length s - (i + 1)" unfolding scan_dist_def using ex2 by (rule if_not_P)
    moreover have "scan_dist s i = 2 * length s - i" unfolding scan_dist_def using ex1 by (rule if_not_P)
    ultimately show ?thesis using True m by simp
  qed
next
  case False
  with i have n: "i + 1 = length s" by linarith
  have m: "(i + 1) mod length s = 0" unfolding n by (rule mod_self)
  have ex1: "\<not> (\<exists>j. i \<le> j \<and> j < length s \<and> tokens (s ! j) \<noteq> 0)"
  proof
    assume "\<exists>j. i \<le> j \<and> j < length s \<and> tokens (s ! j) \<noteq> 0"
    then obtain j where j: "i \<le> j" "j < length s" "tokens (s ! j) \<noteq> 0" by blast
    then have "j = i" using n by linarith
    with j z show False by simp
  qed
  from ex obtain j where "j < length s" "tokens (s ! j) \<noteq> 0" by blast
  then have "0 \<le> j \<and> j < length s \<and> tokens (s ! j) \<noteq> 0" by simp
  then have ex2: "\<exists>j. 0 \<le> j \<and> j < length s \<and> tokens (s ! j) \<noteq> 0" by blast
  have "scan_dist s 0 = length s - 0" unfolding scan_dist_def using ex2 by (rule if_P)
  moreover have "scan_dist s i = 2 * length s - i" unfolding scan_dist_def using ex1 by (rule if_not_P)
  ultimately have "scan_dist s 0 < scan_dist s i" using n by linarith
  then show ?thesis unfolding m .
qed

lemma sum_list_pos_ex: "0 < sum_list (map f xs) \<Longrightarrow> \<exists>x \<in> set xs. (f x :: nat) \<noteq> 0"
proof (induction xs)
  case Nil
  then show ?case by simp
next
  case (Cons a xs)
  show ?case
  proof (cases "f a = 0")
    case True
    with Cons show ?thesis by simp
  next
    case False
    then show ?thesis by simp
  qed
qed

lemma total_len_pos_ex: "0 < total_len s \<Longrightarrow> \<exists>j < length s. tokens (s ! j) \<noteq> 0"
proof -
  assume "0 < total_len s"
  then have "0 < sum_list (map tokens s)" by (simp add: total_len_sum)
  then obtain x where "x \<in> set s" "tokens x \<noteq> 0" using sum_list_pos_ex by blast
  then show ?thesis by (auto simp: in_set_conv_nth)
qed

lemma truncate_loop_returns:
  "loop_state_ok s r i \<Longrightarrow> 0 \<le> d \<Longrightarrow> d \<le> int (total_len s) \<Longrightarrow>
   \<exists>y. truncate_loop s r i d = Some y"
proof (induction "(s, r, i, d)" arbitrary: s r i d
    rule: wf_induct_rule [OF wf_measures [of "[\<lambda>(s, r, i, d). nat d, \<lambda>(s, r, i, d). debt_sum s r, \<lambda>(s, r, i, d). scan_dist s i]"]])
  case 1
  note ok = \<open>loop_state_ok s r i\<close>
  have i: "i < length s" "i < length r" and k: "r ! i < length (s ! i)"
    using ok by (auto simp: loop_state_ok_def list_all_length)
  show ?case
  proof (cases "d = 0")
    case True
    then show ?thesis by (subst truncate_loop.simps) simp
  next
    case d: False
    with 1(3) have dpos: "0 < d" by simp
    show ?thesis
    proof (cases "s ! i ! (r ! i) = []")
      case False
      let ?s1 = "s[i := (s ! i)[r ! i := pop (if r ! i = 2 then - 1 else 0) (s ! i ! (r ! i))]]"
      have "Suc (total_len ?s1) = total_len s" using total_len_pop [OF i(1) k False] by simp
      with 1(4) have d1: "d - 1 \<le> int (total_len ?s1)" by linarith
      have d0: "0 \<le> d - 1" using dpos by simp
      have m: "((?s1, r, (i + 1) mod length s, d - 1), (s, r, i, d))
          \<in> measures [\<lambda>(s, r, i, d). nat d, \<lambda>(s, r, i, d). debt_sum s r, \<lambda>(s, r, i, d). scan_dist s i]"
        using dpos by simp
      have "\<exists>y. truncate_loop ?s1 r ((i + 1) mod length s) (d - 1) = Some y"
        by (rule 1(1) [OF m state_ok_pop [OF ok] d0 d1])
      then show ?thesis
        using d i k False by (subst truncate_loop.simps) (simp add: Let_def)
    next
      case True
      let ?r1 = "r[i := (r ! i + 1) mod 3]"
      have "((s, ?r1, (i + 1) mod length s, d), (s, r, i, d))
          \<in> measures [\<lambda>(s, r, i, d). nat d, \<lambda>(s, r, i, d). debt_sum s r, \<lambda>(s, r, i, d). scan_dist s i]"
      proof (cases "tokens (s ! i) = 0")
        case z: True
        have "\<exists>j < length s. tokens (s ! j) \<noteq> 0"
          using dpos 1(4) by (intro total_len_pos_ex) linarith
        from dist_step_less [OF i(1) z this] debt_sum_switch_eq [OF ok z]
        show ?thesis by simp
      next
        case False
        from debt_sum_switch_less [OF ok True False] show ?thesis by simp
      qed
      then have "\<exists>y. truncate_loop s ?r1 ((i + 1) mod length s) d = Some y"
        by (rule 1(1) [OF _ state_ok_switch [OF ok] 1(3) 1(4)])
      then show ?thesis
        using d i k True by (subst truncate_loop.simps) (simp add: Let_def)
    qed
  qed
qed

lemma initial_state_ok:
  "s \<noteq> [] \<Longrightarrow> list_all (\<lambda>seg. length seg = 3) s \<Longrightarrow> loop_state_ok s (replicate (length s) 2) 0"
  by (simp add: loop_state_ok_def list_all_length)

lemma initial_regions_ok: "regions_ok s (replicate (length s) 2)"
  by (simp add: regions_ok_def)

lemma truncate_helper_post:
  assumes "s \<noteq> []" "list_all (\<lambda>seg. length seg = 3) s" "truncate_helper s d = Some y"
  shows "loop_post s d y"
  using truncate_loop_partial [of s "replicate (length s) 2" 0 d y] assms
    initial_state_ok [of s] initial_regions_ok [of s]
  by (simp add: truncate_helper_def)

lemma truncate_helper_returns:
  assumes "s \<noteq> []" "list_all (\<lambda>seg. length seg = 3) s" "0 \<le> d" "d \<le> int (total_len s)"
  shows "\<exists>s'. truncate_helper s d = Some (Inr s')"
proof -
  obtain y where y: "truncate_helper s d = Some y"
    using truncate_loop_returns [OF initial_state_ok [OF assms(1,2)] assms(3,4)]
    by (auto simp: truncate_helper_def)
  from truncate_helper_post [OF assms(1,2) y] y show ?thesis by (auto simp: loop_post_def)
qed

lemma truncate_helper_diverges:
  assumes "s \<noteq> []" "list_all (\<lambda>seg. length seg = 3) s" "d < 0 \<or> int (total_len s) < d"
  shows "truncate_helper s d = None"
proof (cases "truncate_helper s d")
  case None
  then show ?thesis .
next
  case (Some y)
  from truncate_helper_post [OF assms(1,2) Some] assms(3) show ?thesis
    by (auto simp: loop_post_def)
qed

lemma truncate_helper_empty:
  "truncate_helper [] d = (if d = 0 then Some (Inr []) else Some (Inl IndexError))"
  by (simp add: truncate_helper_def truncate_loop.simps)

lemma next_index: "i < n \<Longrightarrow> (i + 1) mod n = (if i + 1 < n then i + 1 else (0::nat))"
proof (cases "i + 1 < n")
  case True
  then show ?thesis by simp
next
  case False
  assume "i < n"
  with False have "i + 1 = n" by linarith
  then have "(i + 1) mod n = 0" by (metis mod_self)
  with False show ?thesis by simp
qed

lemma cyc_next:
  assumes "i < n" "x < n" "x \<noteq> i"
  shows "Suc (cyc n ((i + 1) mod n) x) = cyc n i x"
  unfolding next_index [OF assms(1)] using assms by (auto simp: cyc_def)

lemma cyc_next_self:
  assumes "i < n"
  shows "Suc (cyc n ((i + 1) mod n) i) = n"
  unfolding next_index [OF assms] using assms by (auto simp: cyc_def)

lemma cyc_self: "cyc n i i = 0"
  by (simp add: cyc_def)

lemma cyc_less: "i < n \<Longrightarrow> x < n \<Longrightarrow> cyc n i x < n"
  by (auto simp: cyc_def)

lemma ordered_trunc_tokens:
  assumes "ordered_trunc x y" "length x = 3"
  shows "tokens y \<le> tokens x"
proof -
  obtain a b c where x: "x = [a, b, c]" using assms(2) by (rule length3E)
  have "length y = 3" using assms(1) by (simp add: ordered_trunc_def)
  then obtain a' b' c' where y: "y = [a', b', c']" by (rule length3E)
  have "length a' \<le> length a" "length b' \<le> length b" "length c' \<le> length c"
    using assms(1) by (auto simp: ordered_trunc_def x y dest: suffix_length_le prefix_length_le)
  then show ?thesis by (simp add: tokens_def x y)
qed

lemma tokens_pop:
  assumes "k < length seg" "seg ! k \<noteq> []"
  shows "Suc (tokens (seg[k := pop p (seg ! k)])) = tokens seg"
  using tokens_update [OF assms(1), of "pop p (seg ! k)"] length_pop [OF assms(2), of p]
  by linarith

lemma fair_refl: "fair s r i s"
  by (simp add: fair_def)

lemma fair_pop:
  assumes ok: "loop_state_ok s r i" and ne: "s ! i ! (r ! i) \<noteq> []"
    and f: "fair (s[i := (s ! i)[r ! i := pop p (s ! i ! (r ! i))]]) r ((i + 1) mod length s) s'"
  shows "fair s r i s'"
  unfolding fair_def
proof (intro allI impI)
  fix j k
  assume j: "j < length s" and k: "k < length s" and nz: "tokens (s' ! k) \<noteq> 0"
  let ?n = "length s"
  let ?s1 = "s[i := (s ! i)[r ! i := pop p (s ! i ! (r ! i))]]"
  let ?i1 = "(i + 1) mod ?n"
  have i: "i < ?n" and ri: "r ! i < length (s ! i)"
    using ok by (auto simp: loop_state_ok_def list_all_length)
  have ti: "Suc (tokens (?s1 ! i)) = tokens (s ! i)"
    using tokens_pop [OF ri ne, of p] i by simp
  have tx: "tokens (?s1 ! x) = tokens (s ! x)" if "x \<noteq> i" for x
    using that by simp
  from f j k nz have IH:
    "tokens (?s1 ! j) + tokens (s' ! k)
      \<le> tokens (s' ! j) + tokens (?s1 ! k) + switches_left (r ! k)
          + (if cyc ?n ?i1 j < cyc ?n ?i1 k then 1 else 0)"
    by (simp add: fair_def)
  show "tokens (s ! j) + tokens (s' ! k)
          \<le> tokens (s' ! j) + tokens (s ! k) + switches_left (r ! k)
              + (if cyc ?n i j < cyc ?n i k then 1 else 0)"
  proof (cases "j = k")
    case True
    then show ?thesis by simp
  next
    case jk: False
    show ?thesis
    proof (cases "j = i")
      case True
      with jk have ki: "k \<noteq> i" by simp
      have "cyc ?n ?i1 k < ?n - 1 + 1" using cyc_next [OF i k ki] cyc_less [OF i k] by linarith
      moreover have "cyc ?n ?i1 i = ?n - 1" using cyc_next_self [OF i] by linarith
      ultimately have "\<not> cyc ?n ?i1 i < cyc ?n ?i1 k" by linarith
      moreover have "cyc ?n i i < cyc ?n i k" using cyc_next [OF i k ki] by (simp add: cyc_self)
      ultimately show ?thesis using IH ti tx [OF ki] True by simp
    next
      case ji: False
      show ?thesis
      proof (cases "k = i")
        case True
        have "\<not> cyc ?n i j < cyc ?n i i" by (simp add: cyc_self)
        then show ?thesis using IH ti tx [OF ji] True by (simp split: if_splits)
      next
        case ki: False
        have "(cyc ?n ?i1 j < cyc ?n ?i1 k) = (cyc ?n i j < cyc ?n i k)"
          using cyc_next [OF i j ji] cyc_next [OF i k ki] by linarith
        then show ?thesis using IH tx [OF ji] tx [OF ki] by simp
      qed
    qed
  qed
qed

lemma fair_switch:
  assumes ok: "loop_state_ok s r i" and reg: "regions_ok s r" and e: "s ! i ! (r ! i) = []"
    and mono: "tokens (s' ! i) \<le> tokens (s ! i)"
    and f: "fair s (r[i := (r ! i + 1) mod 3]) ((i + 1) mod length s) s'"
  shows "fair s r i s'"
  unfolding fair_def
proof (intro allI impI)
  fix j k
  assume j: "j < length s" and k: "k < length s" and nz: "tokens (s' ! k) \<noteq> 0"
  let ?n = "length s"
  let ?r1 = "r[i := (r ! i + 1) mod 3]"
  let ?i1 = "(i + 1) mod ?n"
  have i: "i < ?n" "i < length r" and ri: "r ! i < 3" and len: "length (s ! i) = 3"
    using ok by (auto simp: loop_state_ok_def list_all_length)
  from f j k nz have IH:
    "tokens (s ! j) + tokens (s' ! k)
      \<le> tokens (s' ! j) + tokens (s ! k) + switches_left (?r1 ! k)
          + (if cyc ?n ?i1 j < cyc ?n ?i1 k then 1 else 0)"
    by (simp add: fair_def)
  show "tokens (s ! j) + tokens (s' ! k)
          \<le> tokens (s' ! j) + tokens (s ! k) + switches_left (r ! k)
              + (if cyc ?n i j < cyc ?n i k then 1 else 0)"
  proof (cases "j = k")
    case True
    then show ?thesis by simp
  next
    case jk: False
    show ?thesis
    proof (cases "k = i")
      case True
      with nz mono have tpos: "tokens (s ! i) \<noteq> 0" by simp
      obtain a b c where seg: "s ! i = [a, b, c]" using len by (rule length3E)
      have "r ! i \<noteq> 1"
      proof
        assume r1: "r ! i = 1"
        with reg i have "s ! i ! 2 = []" "s ! i ! 0 = []" by (auto simp: regions_ok_def)
        with e r1 have "tokens (s ! i) = 0" by (simp add: seg tokens_def)
        with tpos show False by simp
      qed
      then have sl: "Suc (switches_left (?r1 ! i)) = switches_left (r ! i)"
        using ri i by (auto simp: switches_left_def)
      from IH True sl show ?thesis by (simp split: if_splits)
    next
      case ki: False
      then have slk: "switches_left (?r1 ! k) = switches_left (r ! k)" by simp
      show ?thesis
      proof (cases "j = i")
        case True
        have "cyc ?n ?i1 k < ?n - 1 + 1" using cyc_next [OF i(1) k ki] cyc_less [OF i(1) k] by linarith
        moreover have "cyc ?n ?i1 i = ?n - 1" using cyc_next_self [OF i(1)] by linarith
        ultimately have "\<not> cyc ?n ?i1 i < cyc ?n ?i1 k" by linarith
        then show ?thesis using IH slk True by (simp split: if_splits)
      next
        case ji: False
        have "(cyc ?n ?i1 j < cyc ?n ?i1 k) = (cyc ?n i j < cyc ?n i k)"
          using cyc_next [OF i(1) j ji] cyc_next [OF i(1) k ki] by linarith
        then show ?thesis using IH slk by simp
      qed
    qed
  qed
qed

lemma loop_post_tokens:
  assumes "loop_post s d (Inr s')" "list_all (\<lambda>seg. length seg = 3) s" "j < length s"
  shows "tokens (s' ! j) \<le> tokens (s ! j)"
  using assms by (auto simp: loop_post_def list_all_length intro: ordered_trunc_tokens)

lemma truncate_loop_fair:
  assumes "truncate_loop s r i d = Some y"
  shows "loop_state_ok s r i \<longrightarrow> regions_ok s r \<longrightarrow>
         loop_post s d y \<and> (\<forall>s'. y = Inr s' \<longrightarrow> fair s r i s')"
  using assms
proof (induction rule: truncate_loop.raw_induct [rotated 1, consumes 1])
  case (1 truncate_loop s r i d y)
  show ?case
  proof (intro impI)
    assume ok: "loop_state_ok s r i" and reg: "regions_ok s r"
    have i: "i < length s" "i < length r" and k: "r ! i < length (s ! i)"
      and all3: "\<forall>j < length s. length (s ! j) = 3" and l3: "list_all (\<lambda>seg. length seg = 3) s"
      using ok by (auto simp: loop_state_ok_def list_all_length)
    show "loop_post s d y \<and> (\<forall>s'. y = Inr s' \<longrightarrow> fair s r i s')"
    proof (cases "d = 0")
      case True
      with 1(2) have "y = Inr s" by simp
      with True all3 show ?thesis by (simp add: loop_post_def ordered_trunc_refl fair_refl)
    next
      case d: False
      show ?thesis
      proof (cases "s ! i ! (r ! i) = []")
        case True
        let ?r1 = "r[i := (r ! i + 1) mod 3]"
        from 1(2) d i k True have
          "truncate_loop s ?r1 ((i + 1) mod length s) d = Some y"
          by (simp add: Let_def)
        from 1(1) [OF this] state_ok_switch [OF ok] regions_ok_switch [OF ok reg True]
        have post: "loop_post s d y" and f: "\<forall>s'. y = Inr s' \<longrightarrow> fair s ?r1 ((i + 1) mod length s) s'"
          by simp_all
        have "fair s r i s'" if y: "y = Inr s'" for s'
        proof -
          have "tokens (s' ! i) \<le> tokens (s ! i)"
            using loop_post_tokens [OF _ l3 i(1)] post y by simp
          moreover have "fair s ?r1 ((i + 1) mod length s) s'" using f y by simp
          ultimately show ?thesis using fair_switch [OF ok reg True] by blast
        qed
        with post show ?thesis by simp
      next
        case False
        let ?s1 = "s[i := (s ! i)[r ! i := pop (if r ! i = 2 then - 1 else 0) (s ! i ! (r ! i))]]"
        from 1(2) d i k False have
          "truncate_loop ?s1 r ((i + 1) mod length s) (d - 1) = Some y"
          by (simp add: Let_def)
        from 1(1) [OF this] state_ok_pop [OF ok] regions_ok_pop [OF ok reg]
        have post1: "loop_post ?s1 (d - 1) y"
          and f: "\<forall>s'. y = Inr s' \<longrightarrow> fair ?s1 r ((i + 1) mod length s) s'"
          by simp_all
        have "loop_post s d y" by (rule loop_post_pop [OF ok reg False post1])
        moreover have "fair s r i s'" if y: "y = Inr s'" for s'
          using fair_pop [OF ok False] f y by blast
        ultimately show ?thesis by simp
      qed
    qed
  qed
qed

lemma truncate_helper_fair:
  assumes "s \<noteq> []" "list_all (\<lambda>seg. length seg = 3) s" "truncate_helper s d = Some (Inr s')"
    and "j < length s" "k < length s" "tokens (s' ! k) \<noteq> 0"
  shows "tokens (s ! j) + tokens (s' ! k) \<le> tokens (s' ! j) + tokens (s ! k) + 2 + (if j < k then 1 else 0)"
proof -
  have "fair s (replicate (length s) 2) 0 s'"
    using truncate_loop_fair [of s "replicate (length s) 2" 0 d "Inr s'"] assms(1-3)
      initial_state_ok [of s] initial_regions_ok [of s]
    by (simp add: truncate_helper_def)
  then show ?thesis using assms(4-6) by (simp add: fair_def switches_left_def cyc_def)
qed

text \<open>
  C10: \<open>truncate_helper\<close> is called by \<open>truncate_or_pad_helper\<close> only, under
  \<open>if diff >= 0\<close>, on the segments \<open>fim\<close> has built: at least one segment, each with its
  prefix, middle and suffix lists. On these inputs it terminates exactly when \<open>diff\<close> is at
  most the total number of tokens in the prefix, middle and suffix lists of all segments;
  under that precondition its loop ends after removing \<open>diff\<close> tokens, and when \<open>diff\<close>
  exceeds that total the loop never terminates.
\<close>

theorem truncate_helper_terminates_iff:
  assumes "samples_lst \<noteq> []" "list_all (\<lambda>seg. length seg = 3) samples_lst" "0 \<le> diff"
  shows "((truncate_helper samples_lst diff \<noteq> None) = (diff \<le> int (total_len samples_lst)))
         \<and> (diff \<le> int (total_len samples_lst) \<longrightarrow>
              (\<exists>s'. truncate_helper samples_lst diff = Some (Inr s')
                 \<and> length s' = length samples_lst
                 \<and> int (total_len s') = int (total_len samples_lst) - diff))
         \<and> (int (total_len samples_lst) < diff \<longrightarrow> truncate_helper samples_lst diff = None)"
proof (cases "diff \<le> int (total_len samples_lst)")
  case True
  then obtain s' where s': "truncate_helper samples_lst diff = Some (Inr s')"
    using truncate_helper_returns [OF assms] by blast
  from truncate_helper_post [OF assms(1,2) s']
  have "length s' = length samples_lst \<and> int (total_len s') = int (total_len samples_lst) - diff"
    by (auto simp: loop_post_def)
  with s' True show ?thesis by auto
next
  case False
  then have "truncate_helper samples_lst diff = None"
    using truncate_helper_diverges [OF assms(1,2), of diff] by linarith
  with False show ?thesis by auto
qed

theorem truncate_helper_terminates_iff_witness:
  "(\<exists>s'. truncate_helper [[[1, 2], [3], [4, 5, 6]], [[], [7], []]] 4 = Some (Inr s')
         \<and> length s' = 2 \<and> total_len s' = 3)
   \<and> truncate_helper [[[1, 2], [3], [4, 5, 6]], [[], [7], []]] 8 = None"
  using truncate_helper_terminates_iff [of "[[[1, 2], [3], [4, 5, 6]], [[], [7], []]]" 4]
    truncate_helper_terminates_iff [of "[[[1, 2], [3], [4, 5, 6]], [[], [7], []]]" 8]
  by (auto simp: total_len_def flatten_2d_def numeral_2_eq_2)

text \<open>
  C2 (as stated): whenever \<open>diff\<close> is non-negative \<open>truncate_helper\<close> removes exactly
  \<open>diff\<close> tokens, and no single segment absorbs all truncation while tokens remain
  elsewhere. With a first segment that has only a suffix and a second one that has only a
  prefix and a middle, \<open>diff = 2\<close> takes both tokens from the first segment: the second
  spends its turn switching from the suffix to the prefix. And the sample \<open>[65, 66]\<close>,
  when it is infilled, becomes the one segment \<open>[[65], [66], []]\<close> with \<open>diff = 3\<close>:
  there are only two tokens to remove, and the call does not return.
\<close>

theorem truncate_helper_policy_counterexample:
  "truncate_helper [[[], [], [1, 2, 3, 4, 5, 6, 7, 8, 9, 10]], [[11], [12], []]] 2
       = Some (Inr [[[], [], [1, 2, 3, 4, 5, 6, 7, 8]], [[11], [12], []]])
   \<and> fim_segments [65, 66] byte_tokenizer fim_draws 0 = [([[65], [66], []], PSM)]
   \<and> fim_diff [([[65], [66], []], PSM)] [] 2 = 3
   \<and> truncate_helper [[[65], [66], []]] 3 = None"
proof -
  have "truncate_helper [[[65], [66], []]] 3 = None"
    by (rule truncate_helper_diverges) (simp_all add: total_len_def flatten_2d_def)
  moreover have "truncate_helper [[[], [], [1, 2, 3, 4, 5, 6, 7, 8, 9, 10]], [[11], [12], []]] 2
       = Some (Inr [[[], [], [1, 2, 3, 4, 5, 6, 7, 8]], [[11], [12], []]])"
    by (simp add: truncate_helper_def truncate_loop.simps pop_def)
  moreover have "fim_segments [65, 66] byte_tokenizer fim_draws 0 = [([[65], [66], []], PSM)]"
    by (simp add: fim_segments_def fim_split_def chunk_def fim_draws_def byte_tokenizer_def)
  moreover have "fim_diff [([[65], [66], []], PSM)] [] 2 = 3"
    by (simp add: fim_diff_def total_len_def flatten_2d_def add_constant_def)
  ultimately show ?thesis by simp
qed

text \<open>
  C2 (amended): whenever \<open>diff\<close> is non-negative and at most the number of tokens in the
  segments (at least one segment, each with its three regions), \<open>truncate_helper\<close> returns
  the segments with exactly \<open>diff\<close> tokens removed. In every segment the tokens are taken
  from the end of the suffix first, from the start of the prefix only once the suffix is
  empty, and from the start of the middle only once prefix and suffix are empty. The loop
  moves to the next segment after every iteration, whether it removed a token or switched
  region, so a segment never loses more than three tokens more than a segment that still
  holds tokens at the end.
\<close>

theorem truncate_helper_ordered_policy:
  assumes "samples_lst \<noteq> []" "list_all (\<lambda>seg. length seg = 3) samples_lst"
    and "0 \<le> diff" "diff \<le> int (total_len samples_lst)"
  shows "\<exists>s'. truncate_helper samples_lst diff = Some (Inr s')
           \<and> length s' = length samples_lst
           \<and> int (total_len s') = int (total_len samples_lst) - diff
           \<and> (\<forall>j < length samples_lst. ordered_trunc (samples_lst ! j) (s' ! j))
           \<and> (\<forall>j < length samples_lst. \<forall>k < length samples_lst. tokens (s' ! k) \<noteq> 0 \<longrightarrow>
                 tokens (samples_lst ! j) + tokens (s' ! k)
                   \<le> tokens (s' ! j) + tokens (samples_lst ! k) + 2 + (if j < k then 1 else 0))"
proof -
  obtain s' where s': "truncate_helper samples_lst diff = Some (Inr s')"
    using truncate_helper_returns [OF assms] by blast
  from truncate_helper_post [OF assms(1,2) s']
  have "length s' = length samples_lst"
    and "int (total_len s') = int (total_len samples_lst) - diff"
    and "\<forall>j < length samples_lst. ordered_trunc (samples_lst ! j) (s' ! j)"
    by (auto simp: loop_post_def)
  moreover have "\<forall>j < length samples_lst. \<forall>k < length samples_lst. tokens (s' ! k) \<noteq> 0 \<longrightarrow>
                 tokens (samples_lst ! j) + tokens (s' ! k)
                   \<le> tokens (s' ! j) + tokens (samples_lst ! k) + 2 + (if j < k then 1 else 0)"
    using truncate_helper_fair [OF assms(1,2) s'] by blast
  ultimately show ?thesis using s' by blast
qed

theorem truncate_helper_ordered_policy_witness:
  "\<exists>s'. truncate_helper [[[1, 2], [3], [4, 5, 6]], [[], [7], []]] 4 = Some (Inr s')
      \<and> length s' = 2 \<and> total_len s' = 3
      \<and> ordered_trunc [[1, 2], [3], [4, 5, 6]] (s' ! 0) \<and> ordered_trunc [[], [7], []] (s' ! 1)"
proof -
  have "\<exists>s'. truncate_helper [[[1, 2], [3], [4, 5, 6]], [[], [7], []]] 4 = Some (Inr s')
      \<and> length s' = 2 \<and> int (total_len s') = 3
      \<and> (\<forall>j < 2. ordered_trunc ([[[1, 2], [3], [4, 5, 6]], [[], [7], []]] ! j) (s' ! j))"
    using truncate_helper_ordered_policy [of "[[[1, 2], [3], [4, 5, 6]], [[], [7], []]]" 4]
    by (auto simp: total_len_def flatten_2d_def numeral_2_eq_2)
  then obtain s' where "truncate_helper [[[1, 2], [3], [4, 5, 6]], [[], [7], []]] 4 = Some (Inr s')"
    "length s' = 2" "total_len s' = 3"
    "\<forall>j < 2. ordered_trunc ([[[1, 2], [3], [4, 5, 6]], [[], [7], []]] ! j) (s' ! j)"
    by auto
  moreover from this(4) have "ordered_trunc [[1, 2], [3], [4, 5, 6]] (s' ! 0)"
    and "ordered_trunc [[], [7], []] (s' ! 1)"
    by (auto simp: less_2_cases_iff)
  ultimately show ?thesis by blast
qed

subsection \<open>Fill-in-the-middle\<close>

lemma split_at_eos_simps:
  "split_at_eos e [] = [[]]"
  "split_at_eos e (x # xs) =
     (if x = e then [] # split_at_eos e xs
      else (x # hd (split_at_eos e xs)) # tl (split_at_eos e xs))"
  by (simp_all add: split_at_eos_def)

lemma split_at_eos_nonempty: "split_at_eos e xs \<noteq> []"
  by (induction xs) (simp_all add: split_at_eos_simps)

lemma chunk_length: "length (fst (chunk doc tok d)) = 3"
  by (simp add: chunk_def Let_def)

lemma fim_loop_scan:
  assumes "sample = pre @ cur @ rest"
  shows "fim_loop f sample (argwhere_eq (length pre + length cur) rest e) (length pre) acc
         = (let docs = split_at_eos e rest;
                done = (cur @ hd docs) # tl docs;
                emitted = filter (\<lambda>doc. doc \<noteq> []) (butlast done)
            in (length sample - length (last done),
                acc @ map (\<lambda>(n, doc). f n doc) (enumerate (length acc) emitted)))"
  using assms
proof (induction rest arbitrary: pre cur acc)
  case Nil
  then show ?case by (simp add: split_at_eos_simps)
next
  case (Cons x xs)
  show ?case
  proof (cases "x = e")
    case False
    have "sample = pre @ (cur @ [x]) @ xs" using Cons.prems by simp
    from Cons.IH [OF this, of acc] False show ?thesis
      by (simp add: split_at_eos_simps Let_def)
  next
    case True
    have s: "sample = (pre @ cur @ [x]) @ [] @ xs" using Cons.prems by simp
    have tk: "take (length cur) (drop (length pre) sample) = cur" using Cons.prems by simp
    have ne: "split_at_eos e xs \<noteq> []" by (rule split_at_eos_nonempty)
    then obtain d ds where dd: "split_at_eos e xs = d # ds" by (cases "split_at_eos e xs") auto
    show ?thesis
    proof (cases "cur = []")
      case c: True
      from Cons.IH [OF s, of acc] True c show ?thesis
        by (simp add: split_at_eos_simps Let_def dd)
    next
      case c: False
      from Cons.IH [OF s, of "acc @ [f (length acc) cur]"] True c tk show ?thesis
        by (simp add: split_at_eos_simps Let_def dd)
    qed
  qed
qed

lemma argwhere_eq_empty: "(argwhere_eq i xs e = []) = (e \<notin> set xs)"
  by (induction xs arbitrary: i) auto

lemma split_at_eos_no_eos: "e \<notin> set xs \<Longrightarrow> split_at_eos e xs = [xs]"
  by (induction xs) (simp_all add: split_at_eos_simps)

lemma split_at_eos_last:
  "suffix (last (split_at_eos e xs)) xs
   \<and> (tl (split_at_eos e xs) = [] \<longrightarrow> hd (split_at_eos e xs) = xs)"
proof (induction xs)
  case Nil
  then show ?case by (simp add: split_at_eos_simps)
next
  case (Cons x xs)
  obtain d ds where dd: "split_at_eos e xs = d # ds"
    using split_at_eos_nonempty [of e xs] by (cases "split_at_eos e xs") auto
  show ?case
  proof (cases "x = e")
    case True
    with Cons dd show ?thesis by (auto simp: split_at_eos_simps suffix_Cons)
  next
    case False
    with Cons dd show ?thesis by (cases ds) (auto simp: split_at_eos_simps suffix_Cons)
  qed
qed

lemma drop_suffix: "suffix ys xs \<Longrightarrow> drop (length xs - length ys) xs = ys"
  by (auto simp: suffix_def)

lemma fim_split_documents:
  "fim_split f sample e = map (\<lambda>(n, doc). f n doc) (enumerate 0 (fim_documents e sample))"
proof (cases "e \<in> set sample")
  case False
  then show ?thesis
    by (simp add: fim_split_def argwhere_eq_empty fim_documents_def split_at_eos_no_eos)
next
  case True
  obtain d ds where dd: "split_at_eos e sample = d # ds"
    using split_at_eos_nonempty [of e sample] by (cases "split_at_eos e sample") auto
  let ?emitted = "filter (\<lambda>doc. doc \<noteq> []) (butlast (d # ds))"
  have "sample = [] @ [] @ sample" by simp
  from fim_loop_scan [OF this, of f e "[]"]
  have loop: "fim_loop f sample (argwhere_eq 0 sample e) 0 []
      = (length sample - length (last (d # ds)), map (\<lambda>(n, doc). f n doc) (enumerate 0 ?emitted))"
    by (simp add: Let_def dd)
  have "suffix (last (d # ds)) sample"
    using split_at_eos_last [of e sample] unfolding dd by blast
  then have dr: "drop (length sample - length (last (d # ds))) sample = last (d # ds)"
    by (rule drop_suffix)
  have "fim_split f sample e
      = map (\<lambda>(n, doc). f n doc) (enumerate 0 ?emitted) @ [f (length ?emitted) (last (d # ds))]"
    using True by (simp add: fim_split_def argwhere_eq_empty loop dr del: last.simps butlast.simps)
  also have "\<dots> = map (\<lambda>(n, doc). f n doc) (enumerate 0 (?emitted @ [last (d # ds)]))"
    by (simp add: enumerate_append_eq del: last.simps butlast.simps)
  finally show ?thesis by (simp add: fim_documents_def dd del: last.simps butlast.simps)
qed

lemma fim_segments_documents:
  "fim_segments sample tok draws e
     = map (\<lambda>(n, doc). chunk doc tok (draws n)) (enumerate 0 (fim_documents e sample))"
  by (simp add: fim_segments_def fim_split_documents)

lemma fim_segments_nonempty: "fim_segments sample tok draws e \<noteq> []"
  by (simp add: fim_segments_documents fim_documents_def enumerate_append_eq)

lemma fim_segments_length3:
  "list_all (\<lambda>seg. length seg = 3) (map fst (fim_segments sample tok draws e))"
  by (simp add: fim_segments_documents list_all_iff chunk_length split: prod.splits)

lemma tokens3_tokens: "length seg = 3 \<Longrightarrow> tokens3 seg = tokens seg"
  by (erule length3E) (simp add: tokens3_def tokens_def)

lemma format_tokens_length:
  "length (format_tokens seg fmt s p m e bos)
     = tokens3 seg + special_count fmt + length bos + length (optional_padding seg)"
  by (cases fmt) (simp_all add: format_tokens_def tokens3_def special_count_def)

lemma format_tokens_nonempty: "format_tokens seg fmt s p m e bos \<noteq> []"
  by (cases fmt) (simp_all add: format_tokens_def)

lemma format_tokens_last:
  "last (format_tokens seg fmt s p m e bos)
     = (if optional_padding seg = [] then e else last (optional_padding seg))"
  by (cases fmt) (simp_all add: format_tokens_def)

lemma format_loop_eq:
  "list_all (\<lambda>pr. 3 \<le> length (fst pr)) pairs \<Longrightarrow>
   format_loop pairs s p m e bos acc n
     = Inr (acc @ map (\<lambda>(seg, fmt). format_tokens seg fmt s p m e bos) pairs,
            n + sum_list (map (\<lambda>(seg, fmt). length (optional_padding seg)) pairs))"
  by (induction pairs arbitrary: acc n) (auto simp: add.assoc)

lemma format_fim_eq:
  assumes "list_all (\<lambda>pr. 3 \<le> length (fst pr)) pairs" "pairs \<noteq> []"
  shows "format_fim pairs L s p m e bos
     = (let full = concat (map (\<lambda>(seg, fmt). format_tokens seg fmt s p m e bos) pairs);
            padlen = sum_list (map (\<lambda>(seg, fmt). length (optional_padding seg)) pairs)
        in if L < padlen then Inl (ValueError ''negative dimensions are not allowed'')
           else Inr (butlast full, replicate (L - padlen) 1 @ replicate padlen 0, tl full))"
  using assms(2) by (simp add: format_fim_def format_loop_eq [OF assms(1)] Let_def)

lemma formatted_zip_length:
  "length S = length fs \<Longrightarrow>
   length (concat (map (\<lambda>(seg, fmt). format_tokens seg fmt s p m e bos) (zip S fs)))
     = sum_list (map tokens3 S) + sum_list (map (\<lambda>fmt. special_count fmt + length bos) fs)
       + sum_list (map (\<lambda>seg. length (optional_padding seg)) S)"
  by (induction S fs rule: list_induct2) (simp_all add: format_tokens_length)

lemma padlen_zip:
  "length S = length fs \<Longrightarrow>
   sum_list (map (\<lambda>(seg, fmt). length (optional_padding seg)) (zip S fs))
     = sum_list (map (\<lambda>seg. length (optional_padding seg)) S)"
  by (induction S fs rule: list_induct2) simp_all

lemma last_concat_map:
  assumes "xs \<noteq> []" "g (last xs) \<noteq> []"
  shows "last (concat (map g xs)) = last (g (last xs))"
proof -
  have "concat (map g xs) = concat (map g (butlast xs @ [last xs]))" using assms(1) by simp
  also have "\<dots> = concat (map g (butlast xs)) @ g (last xs)"
    by (simp del: append_butlast_last_id)
  finally show ?thesis using assms(2) by simp
qed

lemma formatted_zip_last:
  assumes "length S = length fs" "S \<noteq> []"
  shows "last (concat (map (\<lambda>(seg, fmt). format_tokens seg fmt s p m e bos) (zip S fs)))
     = (if optional_padding (last S) = [] then e else last (optional_padding (last S)))"
proof -
  have z: "zip S fs \<noteq> []" using assms by (cases S; cases fs) auto
  have l: "last (zip S fs) = (last S, last fs)"
    using assms by (intro last_zip) auto
  show ?thesis
    using last_concat_map [OF z, of "\<lambda>(seg, fmt). format_tokens seg fmt s p m e bos"]
    by (simp add: l format_tokens_nonempty format_tokens_last)
qed

lemma repair_zip:
  "length fs = length S \<Longrightarrow> map (\<lambda>i. (S ! i, fs ! i)) [0 ..< length S] = zip S fs"
  by (rule nth_equalityI) simp_all

lemma add_constant_foldl:
  "foldl (\<lambda>c (_, fmt). (if fmt = AR then c + 1 else c + 4) + (if bos \<noteq> [] then 1 else 0)) c pairs
     = c + int (sum_list (map (\<lambda>fmt. special_count fmt + (if bos \<noteq> [] then 1 else 0)) (map snd pairs)))"
  by (induction pairs arbitrary: c) (auto simp: special_count_def)

lemma add_constant_sum:
  assumes "length bos \<le> 1"
  shows "add_constant pairs bos + 1
     = int (sum_list (map (\<lambda>fmt. special_count fmt + length bos) (map snd pairs)))"
proof -
  have "(if bos \<noteq> [] then 1 else 0) = length bos"
    using assms by (cases bos) auto
  then show ?thesis by (simp add: add_constant_def add_constant_foldl)
qed

lemma add_constant_nonneg:
  assumes "pairs \<noteq> []"
  shows "0 \<le> add_constant pairs bos"
proof -
  obtain pr rest where "pairs = pr # rest" using assms by (cases pairs) auto
  then show ?thesis
    by (simp add: add_constant_def add_constant_foldl special_count_def)
qed

lemma truncate_or_pad_truncate:
  assumes "0 \<le> diff" "truncate_helper (map fst pairs) diff = Some (Inr S)" "length S = length pairs"
  shows "truncate_or_pad_helper pairs diff pad = Some (Inr (zip S (map snd pairs)))"
proof -
  have "map (\<lambda>i. (S ! i, map snd pairs ! i)) [0 ..< length S] = zip S (map snd pairs)"
    by (rule repair_zip) (simp add: assms(3))
  then show ?thesis
    using assms by (simp add: truncate_or_pad_helper_def Let_def)
qed

lemma truncate_or_pad_diverge:
  assumes "0 \<le> diff" "truncate_helper (map fst pairs) diff = None"
  shows "truncate_or_pad_helper pairs diff pad = None"
  using assms by (simp add: truncate_or_pad_helper_def Let_def)

lemma truncate_or_pad_pad_gen:
  assumes "diff < 0" "pad_helper (map fst pairs) diff pad = Inr S" "length S = length pairs"
  shows "truncate_or_pad_helper pairs diff pad = Some (Inr (zip S (map snd pairs)))"
proof -
  have "map (\<lambda>i. (S ! i, map snd pairs ! i)) [0 ..< length S] = zip S (map snd pairs)"
    by (rule repair_zip) (simp add: assms(3))
  then show ?thesis
    using assms by (simp add: truncate_or_pad_helper_def Let_def)
qed

lemma pad_helper_eq:
  assumes "diff < 0" "segs \<noteq> []"
  shows "pad_helper segs diff pad = Inr (butlast segs @ [last segs @ [replicate (nat (- diff)) pad]])"
proof -
  have "nat \<bar>diff\<bar> = nat (- diff)" using assms(1) by simp
  then show ?thesis using assms(2) by (simp add: pad_helper_def)
qed

lemma truncate_or_pad_pad:
  assumes "diff < 0" "pairs \<noteq> []"
  shows "truncate_or_pad_helper pairs diff pad
     = Some (Inr (zip (butlast (map fst pairs) @ [last (map fst pairs) @ [replicate (nat (- diff)) pad]])
                      (map snd pairs)))"
proof (rule truncate_or_pad_pad_gen [OF assms(1)])
  show "pad_helper (map fst pairs) diff pad
      = Inr (butlast (map fst pairs) @ [last (map fst pairs) @ [replicate (nat (- diff)) pad]])"
    using assms by (intro pad_helper_eq) simp_all
  show "length (butlast (map fst pairs) @ [last (map fst pairs) @ [replicate (nat (- diff)) pad]])
      = length pairs"
    using assms(2) by simp
qed

lemma fim_with_segments:
  assumes rate: "0 \<le> fim_rate" "fim_rate \<le> 1"
    and tp: "truncate_or_pad_helper (fim_segments sample tok draws e)
               (fim_diff (fim_segments sample tok draws e) bos (length sample)) pad
             = Some (Inr (zip S fs))"
    and len: "length S = length fs" and ne: "S \<noteq> []"
    and wf: "list_all (\<lambda>seg. 3 \<le> length seg) S"
    and full: "length (concat (map (\<lambda>(seg, fmt). format_tokens seg fmt s p m e bos) (zip S fs)))
                 = Suc (length sample)"
    and pad: "sum_list (map (\<lambda>seg. length (optional_padding seg)) S) \<le> length sample"
  shows "fim sample tok draws fim_rate spm_rate s p m pad e bos
     = (let full = concat (map (\<lambda>(seg, fmt). format_tokens seg fmt s p m e bos) (zip S fs));
            padlen = sum_list (map (\<lambda>seg. length (optional_padding seg)) S)
        in if length sample = 0 \<or> last full \<noteq> e then Some (Inl AssertionError)
           else Some (Inr (butlast full,
                           replicate (length sample - padlen) 1 @ replicate padlen 0,
                           tl full)))"
proof -
  let ?full = "concat (map (\<lambda>(seg, fmt). format_tokens seg fmt s p m e bos) (zip S fs))"
  let ?padlen = "sum_list (map (\<lambda>seg. length (optional_padding seg)) S)"
  have z: "zip S fs \<noteq> []" using len ne by (cases S; cases fs) auto
  have w: "list_all (\<lambda>pr. 3 \<le> length (fst pr)) (zip S fs)"
    using wf len by (auto simp: list_all_iff dest: set_zip_leftD)
  have ff: "format_fim (zip S fs) (length sample) s p m e bos
      = Inr (butlast ?full, replicate (length sample - ?padlen) 1 @ replicate ?padlen 0, tl ?full)"
    using pad by (simp add: format_fim_eq [OF w z] padlen_zip [OF len] Let_def)
  have l1: "length (butlast ?full) = length sample" "length (tl ?full) = length sample"
    using full by simp_all
  have l2: "length (replicate (length sample - ?padlen) (1::int) @ replicate ?padlen 0) = length sample"
    using pad by simp
  have e: "(tl ?full = []) = (length sample = 0)"
    using l1(2) by (metis length_0_conv)
  have la: "last (tl ?full) = last ?full" if "length sample \<noteq> 0"
    using that e by (simp add: last_tl)
  show ?thesis
    using rate l1 l2 e la
    by (auto simp: fim_def Let_def tp ff)
qed

lemma sum_list_butlast_snoc:
  assumes "xs \<noteq> []"
  shows "sum_list (map f (butlast xs @ [y])) + f (last xs) = sum_list (map f xs) + (f y :: nat)"
proof -
  have "sum_list (map f xs) = sum_list (map f (butlast xs @ [last xs]))" using assms by simp
  also have "\<dots> = sum_list (map f (butlast xs)) + f (last xs)" by (simp del: append_butlast_last_id)
  finally show ?thesis by simp
qed

lemma list_all_butlast: "list_all P xs \<Longrightarrow> list_all P (butlast xs)"
  by (auto simp: list_all_iff dest: in_set_butlastD)

lemma optional_padding_3: "length seg = 3 \<Longrightarrow> optional_padding seg = []"
  by (simp add: optional_padding_def)

lemma optional_padding_snoc: "length seg = 3 \<Longrightarrow> optional_padding (seg @ [padding]) = padding"
  by (simp add: optional_padding_def)

lemma tokens3_snoc: "length seg = 3 \<Longrightarrow> tokens3 (seg @ [padding]) = tokens3 seg"
  by (simp add: tokens3_def nth_append)

lemma sum_tokens3: "list_all (\<lambda>seg. length seg = 3) S \<Longrightarrow> sum_list (map tokens3 S) = total_len S"
  by (induction S) (simp_all add: total_len_sum tokens3_tokens)

lemma sum_padding_3:
  "list_all (\<lambda>seg. length seg = 3) S \<Longrightarrow> sum_list (map (\<lambda>seg. length (optional_padding seg)) S) = 0"
  by (induction S) (simp_all add: optional_padding_3)

lemma fim_path_diverge:
  assumes rate: "0 \<le> fim_rate" "fim_rate \<le> 1"
    and d: "int (total_len (map fst (fim_segments sample tok draws e)))
              < fim_diff (fim_segments sample tok draws e) bos (length sample)"
  shows "fim sample tok draws fim_rate spm_rate s p m pad e bos = None"
proof -
  let ?pairs = "fim_segments sample tok draws e"
  let ?diff = "fim_diff ?pairs bos (length sample)"
  have ne: "map fst ?pairs \<noteq> []" using fim_segments_nonempty [of sample tok draws e] by simp
  have "truncate_helper (map fst ?pairs) ?diff = None"
    using d by (intro truncate_helper_diverges [OF ne fim_segments_length3]) simp
  moreover have "0 \<le> ?diff" using d by linarith
  ultimately have "truncate_or_pad_helper ?pairs ?diff pad = None"
    by (intro truncate_or_pad_diverge)
  then show ?thesis using rate by (simp add: fim_def Let_def)
qed

lemma fim_path_truncate:
  assumes rate: "0 \<le> fim_rate" "fim_rate \<le> 1" and bos: "length bos \<le> 1"
    and d0: "0 \<le> fim_diff (fim_segments sample tok draws e) bos (length sample)"
    and d1: "fim_diff (fim_segments sample tok draws e) bos (length sample)
               \<le> int (total_len (map fst (fim_segments sample tok draws e)))"
  shows "\<exists>inputs labels.
           fim sample tok draws fim_rate spm_rate s p m pad e bos
             = (if length sample = 0 then Some (Inl AssertionError)
                else Some (Inr (inputs, replicate (length sample) 1, labels)))
           \<and> length inputs = length sample \<and> length labels = length sample
           \<and> (length sample \<noteq> 0 \<longrightarrow> last labels = e)"
proof -
  let ?pairs = "fim_segments sample tok draws e"
  let ?segs = "map fst ?pairs"
  let ?fs = "map snd ?pairs"
  let ?diff = "fim_diff ?pairs bos (length sample)"
  have ne: "?segs \<noteq> []" using fim_segments_nonempty [of sample tok draws e] by simp
  have l3: "list_all (\<lambda>seg. length seg = 3) ?segs" by (rule fim_segments_length3)
  obtain S where S: "truncate_helper ?segs ?diff = Some (Inr S)"
    using truncate_helper_returns [OF ne l3 d0 d1] by blast
  from truncate_helper_post [OF ne l3 S]
  have lenS: "length S = length ?segs"
    and tot: "int (total_len S) + ?diff = int (total_len ?segs)"
    and ot: "\<forall>j < length ?segs. ordered_trunc (?segs ! j) (S ! j)"
    by (auto simp: loop_post_def)
  have S3: "list_all (\<lambda>seg. length seg = 3) S"
    using ot lenS by (auto simp: list_all_length ordered_trunc_def)
  then have wf: "list_all (\<lambda>seg. 3 \<le> length seg) S" by (auto simp: list_all_iff)
  have Sne: "S \<noteq> []" using ne lenS by auto
  have len: "length S = length ?fs" using lenS by simp
  have tp: "truncate_or_pad_helper ?pairs ?diff pad = Some (Inr (zip S ?fs))"
    using lenS by (intro truncate_or_pad_truncate [OF d0 S]) simp
  let ?full = "concat (map (\<lambda>(seg, fmt). format_tokens seg fmt s p m e bos) (zip S ?fs))"
  have pad0: "sum_list (map (\<lambda>seg. length (optional_padding seg)) S) = 0"
    by (rule sum_padding_3 [OF S3])
  have "int (length ?full) = int (total_len S) + (add_constant ?pairs bos + 1)"
    by (simp add: formatted_zip_length [OF len] sum_tokens3 [OF S3] pad0 add_constant_sum [OF bos])
  also have "\<dots> = int (length sample) + 1"
    using tot by (simp add: fim_diff_def)
  finally have full: "length ?full = Suc (length sample)" by linarith
  have last_full: "last ?full = e"
  proof -
    have "last S \<in> set S" using Sne by simp
    then have "length (last S) = 3" using S3 by (auto simp: list_all_iff)
    then show ?thesis
      by (simp add: formatted_zip_last [OF len Sne] optional_padding_3)
  qed
  have res: "fim sample tok draws fim_rate spm_rate s p m pad e bos
      = (if length sample = 0 then Some (Inl AssertionError)
         else Some (Inr (butlast ?full, replicate (length sample) 1, tl ?full)))"
    using fim_with_segments [OF rate tp len Sne wf full] last_full
    by (simp add: pad0 Let_def)
  have "length (butlast ?full) = length sample" "length (tl ?full) = length sample"
    using full by simp_all
  moreover have "last (tl ?full) = e" if "length sample \<noteq> 0"
  proof -
    have "tl ?full \<noteq> []" using that \<open>length (tl ?full) = length sample\<close>
      by (metis list.size(3))
    then show ?thesis using last_full by (simp add: last_tl)
  qed
  ultimately show ?thesis using res by blast
qed

lemma fim_path_pad:
  assumes rate: "0 \<le> fim_rate" "fim_rate \<le> 1" and bos: "length bos \<le> 1"
    and d: "fim_diff (fim_segments sample tok draws e) bos (length sample) < 0"
  shows "\<exists>inputs mask' labels.
           fim sample tok draws fim_rate spm_rate s p m pad e bos
             = (if pad \<noteq> e then Some (Inl AssertionError)
                else Some (Inr (inputs, mask', labels)))
           \<and> length inputs = length sample \<and> length mask' = length sample
           \<and> length labels = length sample \<and> last labels = pad \<and> length sample \<noteq> 0"
proof -
  let ?pairs = "fim_segments sample tok draws e"
  let ?segs = "map fst ?pairs"
  let ?fs = "map snd ?pairs"
  let ?diff = "fim_diff ?pairs bos (length sample)"
  let ?padding = "replicate (nat (- ?diff)) pad"
  let ?S = "butlast ?segs @ [last ?segs @ [?padding]]"
  have pne: "?pairs \<noteq> []" by (rule fim_segments_nonempty)
  then have ne: "?segs \<noteq> []" by simp
  have l3: "list_all (\<lambda>seg. length seg = 3) ?segs" by (rule fim_segments_length3)
  have last3: "length (last ?segs) = 3"
    using l3 ne last_in_set [OF ne] unfolding list_all_iff by blast
  have but3: "list_all (\<lambda>seg. length seg = 3) (butlast ?segs)"
    using l3 by (rule list_all_butlast)
  have wf: "list_all (\<lambda>seg. 3 \<le> length seg) ?S"
    using but3 last3 by (auto simp: list_all_iff)
  have len: "length ?S = length ?fs" using ne by simp
  have Sne: "?S \<noteq> []" by simp
  have tp: "truncate_or_pad_helper ?pairs ?diff pad = Some (Inr (zip ?S ?fs))"
    by (rule truncate_or_pad_pad [OF d pne])
  let ?full = "concat (map (\<lambda>(seg, fmt). format_tokens seg fmt s p m e bos) (zip ?S ?fs))"
  have t3: "sum_list (map tokens3 ?S) = total_len ?segs"
    using sum_list_butlast_snoc [OF ne, of tokens3 "last ?segs @ [?padding]"]
      tokens3_snoc [OF last3, of ?padding] sum_tokens3 [OF l3]
    by linarith
  have padlen: "sum_list (map (\<lambda>seg. length (optional_padding seg)) ?S) = nat (- ?diff)"
    using sum_list_butlast_snoc [OF ne, of "\<lambda>seg. length (optional_padding seg)" "last ?segs @ [?padding]"]
      optional_padding_snoc [OF last3, of ?padding] optional_padding_3 [OF last3] sum_padding_3 [OF l3]
    by simp
  have ac: "0 \<le> add_constant ?pairs bos" by (rule add_constant_nonneg [OF pne])
  have "int (length ?full) = int (total_len ?segs) + (add_constant ?pairs bos + 1) + int (nat (- ?diff))"
    unfolding formatted_zip_length [OF len] t3 padlen add_constant_sum [OF bos] by simp
  also have "\<dots> = int (length sample) + 1"
    using d by (simp add: fim_diff_def)
  finally have full: "length ?full = Suc (length sample)" by linarith
  have padle: "nat (- ?diff) \<le> length sample"
    using ac d by (simp add: fim_diff_def)
  have "0 < int (length sample)"
    using ac d unfolding fim_diff_def by linarith
  then have pos: "length sample \<noteq> 0" by linarith
  have last_full: "last ?full = pad"
  proof -
    have "?padding \<noteq> []" using d by simp
    then show ?thesis
      using optional_padding_snoc [OF last3, of ?padding]
      by (simp add: formatted_zip_last [OF len Sne])
  qed
  have res: "fim sample tok draws fim_rate spm_rate s p m pad e bos
      = (if pad \<noteq> e then Some (Inl AssertionError)
         else Some (Inr (butlast ?full,
                         replicate (length sample - nat (- ?diff)) 1 @ replicate (nat (- ?diff)) 0,
                         tl ?full)))"
  proof -
    have padle': "sum_list (map (\<lambda>seg. length (optional_padding seg)) ?S) \<le> length sample"
      unfolding padlen by (rule padle)
    show ?thesis
      unfolding fim_with_segments [OF rate tp len Sne wf full padle'] Let_def padlen last_full
      using pos by simp
  qed
  have "length (butlast ?full) = length sample" "length (tl ?full) = length sample"
    using full by simp_all
  moreover have "length (replicate (length sample - nat (- ?diff)) (1::int) @ replicate (nat (- ?diff)) 0)
      = length sample"
    using padle by simp
  moreover have "last (tl ?full) = pad"
  proof -
    have "tl ?full \<noteq> []" using pos \<open>length (tl ?full) = length sample\<close>
      by (metis list.size(3))
    then show ?thesis using last_full by (simp add: last_tl)
  qed
  ultimately show ?thesis using res pos by blast
qed

lemma split_at_eos_no_eos_in_docs: "\<forall>doc \<in> set (split_at_eos e xs). e \<notin> set doc"
proof (induction xs)
  case Nil
  then show ?case by (simp add: split_at_eos_simps)
next
  case (Cons x xs)
  obtain d ds where dd: "split_at_eos e xs = d # ds"
    using split_at_eos_nonempty [of e xs] by (cases "split_at_eos e xs") auto
  with Cons show ?case by (auto simp: split_at_eos_simps)
qed

lemma split_at_eos_concat:
  "concat (map (\<lambda>doc. doc @ [e]) (butlast (split_at_eos e xs))) @ last (split_at_eos e xs) = xs"
proof (induction xs)
  case Nil
  then show ?case by (simp add: split_at_eos_simps)
next
  case (Cons x xs)
  obtain d ds where dd: "split_at_eos e xs = d # ds"
    using split_at_eos_nonempty [of e xs] by (cases "split_at_eos e xs") auto
  with Cons show ?case by (cases ds) (auto simp: split_at_eos_simps)
qed

text \<open>
  C7 (as stated): every zero-length sub-document, including one after the final
  end-of-sequence token, is skipped and produces no segment entry. The sample \<open>[5, 0]\<close>
  with end-of-sequence id 0 ends in that token; the code calls \<open>chunk\<close> on the empty slice
  after it without a test, and the second entry is the segment of that empty sub-document.
\<close>

theorem fim_trailing_document_counterexample:
  "fim_segments [5, 0] byte_tokenizer ar_draws 0 = [([[], [], [5]], AR), ([[], [], []], AR)]"
  by (simp add: fim_segments_def fim_split_def chunk_def ar_draws_def)

text \<open>
  C7 (amended): the sample is split at the end-of-sequence positions before infill is
  applied to each sub-document; every zero-length sub-document that ends at an
  end-of-sequence token is skipped and produces no segment entry, and the sub-document after
  the final end-of-sequence token (the whole sample when there is none) always produces a
  segment entry, also when it is empty. The second and third conjunct say that
  \<open>split_at_eos\<close> is the split at the end-of-sequence tokens: putting the token back
  after every piece but the last gives the sample, and no piece contains the token.
\<close>

theorem fim_document_splitting:
  "fim_segments sample tok draws eos_tok_id
     = map (\<lambda>(n, doc). chunk doc tok (draws n))
         (enumerate 0
            (filter (\<lambda>doc. doc \<noteq> []) (butlast (split_at_eos eos_tok_id sample))
               @ [last (split_at_eos eos_tok_id sample)]))
   \<and> concat (map (\<lambda>doc. doc @ [eos_tok_id]) (butlast (split_at_eos eos_tok_id sample)))
         @ last (split_at_eos eos_tok_id sample) = sample
   \<and> (\<forall>doc \<in> set (split_at_eos eos_tok_id sample). eos_tok_id \<notin> set doc)"
  using fim_segments_documents [of sample tok draws eos_tok_id]
    split_at_eos_concat [of eos_tok_id sample] split_at_eos_no_eos_in_docs [of eos_tok_id sample]
  by (simp add: fim_documents_def)

theorem fim_document_splitting_witness:
  "fim_segments [0, 5, 6, 0, 0, 7, 0] byte_tokenizer ar_draws 0
     = [([[], [], [5, 6]], AR), ([[], [], [7]], AR), ([[], [], []], AR)]
   \<and> split_at_eos 0 [0, 5, 6, 0, 0, 7, 0] = [[], [5, 6], [], [7], []]"
  using fim_document_splitting [of "[0, 5, 6, 0, 0, 7, 0]" byte_tokenizer ar_draws 0]
  by (simp add: split_at_eos_def chunk_def ar_draws_def)

text \<open>
  The paths through \<open>fim\<close>, for a valid \<open>fim_rate\<close> and an \<open>opt_bos_tok_id\<close> of at most
  one token, with \<open>diff\<close> the length difference \<open>fim\<close> computes and \<open>total\<close> the number
  of tokens in the segments. The three length assertions never fail: every result has
  three arrays of the length of the sample. The last assertion fails on the padding path
  unless the pad id is the end-of-sequence id.
\<close>

lemma fim_outcome:
  assumes "0 \<le> fim_rate" "fim_rate \<le> 1" "length opt_bos_tok_id \<le> 1"
  shows
    "(let L = length sample;
          pairs = fim_segments sample tok draws eos_tok_id;
          diff = fim_diff pairs opt_bos_tok_id L;
          total = int (total_len (map fst pairs));
          r = fim sample tok draws fim_rate spm_rate suffix_tok_id prefix_tok_id middle_tok_id
                fim_pad_tok_id eos_tok_id opt_bos_tok_id
      in ((r = None) = (total < diff))
         \<and> ((r = Some (Inl AssertionError))
              = (diff \<le> total \<and> (L = 0 \<or> (diff < 0 \<and> fim_pad_tok_id \<noteq> eos_tok_id))))
         \<and> ((\<exists>inputs mask' labels. r = Some (Inr (inputs, mask', labels)))
              = (diff \<le> total \<and> L \<noteq> 0 \<and> (0 \<le> diff \<or> fim_pad_tok_id = eos_tok_id)))
         \<and> (\<forall>inputs mask' labels. r = Some (Inr (inputs, mask', labels)) \<longrightarrow>
                length inputs = L \<and> length mask' = L \<and> length labels = L
                \<and> last labels = eos_tok_id))"
proof -
  let ?L = "length sample"
  let ?pairs = "fim_segments sample tok draws eos_tok_id"
  let ?diff = "fim_diff ?pairs opt_bos_tok_id ?L"
  let ?total = "int (total_len (map fst ?pairs))"
  let ?r = "fim sample tok draws fim_rate spm_rate suffix_tok_id prefix_tok_id middle_tok_id
              fim_pad_tok_id eos_tok_id opt_bos_tok_id"
  consider (diverge) "?total < ?diff" | (truncate) "0 \<le> ?diff" "?diff \<le> ?total" | (pad) "?diff < 0"
    by linarith
  then have
    "((?r = None) = (?total < ?diff))
     \<and> ((?r = Some (Inl AssertionError))
          = (?diff \<le> ?total \<and> (?L = 0 \<or> (?diff < 0 \<and> fim_pad_tok_id \<noteq> eos_tok_id))))
     \<and> ((\<exists>inputs mask' labels. ?r = Some (Inr (inputs, mask', labels)))
          = (?diff \<le> ?total \<and> ?L \<noteq> 0 \<and> (0 \<le> ?diff \<or> fim_pad_tok_id = eos_tok_id)))
     \<and> (\<forall>inputs mask' labels. ?r = Some (Inr (inputs, mask', labels)) \<longrightarrow>
            length inputs = ?L \<and> length mask' = ?L \<and> length labels = ?L
            \<and> last labels = eos_tok_id)"
  proof cases
    case diverge
    have "?r = None" by (rule fim_path_diverge [OF assms(1,2) diverge])
    with diverge show ?thesis by simp
  next
    case truncate
    from fim_path_truncate [OF assms truncate, of spm_rate suffix_tok_id prefix_tok_id middle_tok_id fim_pad_tok_id]
    obtain inputs labels where
      r: "?r = (if ?L = 0 then Some (Inl AssertionError)
                else Some (Inr (inputs, replicate ?L 1, labels)))"
      and l: "length inputs = ?L" "length labels = ?L" "?L \<noteq> 0 \<longrightarrow> last labels = eos_tok_id"
      by blast
    show ?thesis
    proof (cases "?L = 0")
      case True
      with r truncate show ?thesis by simp
    next
      case False
      with r l truncate show ?thesis by simp
    qed
  next
    case pad
    from fim_path_pad [OF assms pad, of spm_rate suffix_tok_id prefix_tok_id middle_tok_id fim_pad_tok_id]
    obtain inputs mask' labels where
      r: "?r = (if fim_pad_tok_id \<noteq> eos_tok_id then Some (Inl AssertionError)
                else Some (Inr (inputs, mask', labels)))"
      and l: "length inputs = ?L" "length mask' = ?L" "length labels = ?L"
        "last labels = fim_pad_tok_id" "?L \<noteq> 0"
      by blast
    have t: "?diff \<le> ?total" using pad by linarith
    show ?thesis
    proof (cases "fim_pad_tok_id = eos_tok_id")
      case True
      with r l pad t show ?thesis by simp
    next
      case False
      with r l pad t show ?thesis by simp
    qed
  qed
  then show ?thesis by (simp add: Let_def)
qed

lemma fim_outcome_example:
  "(\<exists>inputs mask' labels.
      fim [5, 0, 6, 7] byte_tokenizer ar_draws 0 0 101 102 103 99 0 [1]
        = Some (Inr (inputs, mask', labels)))
   \<and> fim [65, 66] byte_tokenizer fim_draws 1 0 101 102 103 99 0 [] = None"
  using fim_outcome [of 0 "[1]" "[5, 0, 6, 7]" byte_tokenizer ar_draws 0 0 101 102 103 99]
    fim_outcome [of 1 "[]" "[65, 66]" byte_tokenizer fim_draws 0 0 101 102 103 99]
  by (simp add: Let_def fim_segments_def fim_split_def chunk_def ar_draws_def fim_draws_def
      byte_tokenizer_def fim_diff_def total_len_def flatten_2d_def add_constant_def)

text \<open>
  C1: for every sample of length \<open>L\<close> and every valid \<open>fim_rate\<close>, \<open>fim\<close> returns three
  arrays of length \<open>L\<close> whose last label is the end-of-sequence id. \<open>format_fim\<close>
  documents its label as ending in the end-of-sequence token and \<open>fim\<close> asserts
  \<open>labels[-1] == eos_tok_id\<close>, but \<open>pad_helper\<close> puts the padding into the last segment
  and \<open>format_fim\<close> lays it out after that segment's end-of-sequence token. With
  \<open>fim_rate = 0\<close> no sub-document is permuted. The sample \<open>[0, 5, 6]\<close> starts with the
  end-of-sequence id 0: the empty sub-document before it is skipped, one token is missing,
  the pad id 99 is appended, the label \<open>[6, 0, 99]\<close> ends in the pad id, and \<open>fim\<close>
  fails its own assertion instead of returning.
\<close>

theorem fim_padding_after_eos:
  "fim [0, 5, 6] byte_tokenizer ar_draws 0 0 101 102 103 99 0 [] = Some (Inl AssertionError)
   \<and> \<not> do_fim (ar_draws 0) \<and> binomial_possible 0 (do_fim (ar_draws 0))
   \<and> truncate_or_pad_helper (fim_segments [0, 5, 6] byte_tokenizer ar_draws 0) (- 1) 99
       = Some (Inr [([[], [], [5, 6], [99]], AR)])
   \<and> format_fim [([[], [], [5, 6], [99]], AR)] 3 101 102 103 0 []
       = Inr ([5, 6, 0], [1, 1, 0], [6, 0, 99])"
  by (simp add: fim_def fim_segments_def fim_split_def chunk_def ar_draws_def fim_diff_def
      total_len_def flatten_2d_def add_constant_def truncate_or_pad_helper_def pad_helper_def
      format_fim_def format_tokens_def optional_padding_def draw_possible_def
      binomial_possible_def numeral_2_eq_2)

subsection \<open>Shard writer: row counts\<close>

lemma concatenate_fields_rows:
  "concatenate_fields td dd n = Inr (dd', Some k) \<Longrightarrow>
   (n = None \<or> n = Some k) \<and> list_all (\<lambda>r. r = k) (rows_of td)"
proof (induction td arbitrary: dd n)
  case Nil
  then show ?case by (simp add: rows_of_def)
next
  case (Cons a td)
  obtain data_label data_list where a: "a = (data_label, data_list)" by (cases a)
  show ?case
  proof (cases "np_concatenate data_list")
    case (Inl e)
    with Cons.prems a show ?thesis by simp
  next
    case (Inr data)
    then have data: "data = concat data_list"
      by (auto simp: np_concatenate_def split: if_splits)
    show ?thesis
    proof (cases n)
      case None
      with Cons.prems a Inr
      have "concatenate_fields td (dd @ [(data_label, data)]) (Some (length data)) = Inr (dd', Some k)"
        by simp
      from Cons.IH [OF this] None a data show ?thesis by (simp add: rows_of_def)
    next
      case (Some m)
      with Cons.prems a Inr have m: "m = length data"
        and "concatenate_fields td (dd @ [(data_label, data)]) (Some m) = Inr (dd', Some k)"
        by (auto split: if_splits)
      from Cons.IH [OF this(2)] Some m a data show ?thesis by (simp add: rows_of_def)
    qed
  qed
qed

lemma append_df_to_hdf5_checked:
  assumes "fst (append_df_to_hdf5 files tokenized_data choice) = Inr n"
  shows "list_all (\<lambda>r. r = n) (rows_of tokenized_data)"
proof (cases "concatenate_fields tokenized_data [] None")
  case (Inl e)
  with assms show ?thesis by (simp add: append_df_to_hdf5_def)
next
  case (Inr res)
  obtain data_dict k where res: "res = (data_dict, k)" by (cases res)
  show ?thesis
  proof (cases k)
    case None
    with assms Inr res show ?thesis by (simp add: append_df_to_hdf5_def)
  next
    case (Some m)
    with assms Inr res have "m = n" by (simp add: append_df_to_hdf5_def Let_def)
    with concatenate_fields_rows [of tokenized_data "[]" None data_dict m] Inr res Some
    show ?thesis by simp
  qed
qed

lemma append_df_to_hdf5_error_unchanged:
  "fst (append_df_to_hdf5 files tokenized_data choice) = Inl e \<Longrightarrow>
   snd (append_df_to_hdf5 files tokenized_data choice) = files"
  by (auto simp: append_df_to_hdf5_def Let_def split: sum.splits option.splits prod.splits)

text \<open>
  C4: before a shard is written the writer checks that every field has the same number of
  rows, on the sequential path (\<open>save_buffer_to_hdf5\<close>) and on the shuffle path
  (\<open>append_df_to_hdf5\<close>). The shuffle path asserts it and writes nothing when the assertion
  fails; the sequential path has no such check. On a buffer whose field \<open>input_ids\<close> has
  two rows and whose field \<open>labels\<close> has one, \<open>save_buffer_to_hdf5\<close> writes both
  datasets and sets \<open>n_examples\<close> to the row count of the last field, while
  \<open>append_df_to_hdf5\<close> raises \<open>AssertionError\<close> and leaves the files as they were.
\<close>

theorem save_buffer_to_hdf5_mismatched_rows:
  "save_buffer_to_hdf5 new_h5file
     [(''input_ids'', [[[1, 2], [3, 4 :: int]]]), (''labels'', [[[2, 0]]])]
     = Inr \<lparr> datasets = [(''input_ids'', [[1, 2], [3, 4]]), (''labels'', [[2, 0]])],
             n_examples_attr = Some 1 \<rparr>
   \<and> rows_of [(''input_ids'', [[[1, 2], [3, 4 :: int]]]), (''labels'', [[[2, 0]]])] = [2, 1]
   \<and> append_df_to_hdf5 files
         [(''input_ids'', [[[1, 2], [3, 4 :: int]]]), (''labels'', [[[2, 0]]])] choice
       = (Inl AssertionError, files)"
  by (simp add: save_buffer_to_hdf5_def np_concatenate_def create_dataset_def new_h5file_def
      rows_of_def append_df_to_hdf5_def)

subsection \<open>Chat/preference encoder\<close>

lemma apply_chat_template_error:
  "apply_chat_template self p c r = Inl e \<Longrightarrow> e = TypeError"
  by (auto simp: apply_chat_template_def Let_def split: option.splits if_splits)

lemma render_error: "render self p c r = Inl e \<Longrightarrow> e = TypeError"
  by (auto simp: render_def dest: apply_chat_template_error
      split: option.splits field_value.splits if_splits)

lemma encode_texts_error: "encode_texts self doc = Inl e \<Longrightarrow> e = TypeError"
  by (auto simp: encode_texts_def Let_def dest: render_error
      split: prod.splits option.splits sum.splits if_splits)

lemma build_tokenized_answer_error:
  "build_tokenized_answer self prompt prompt_response = Inl e \<Longrightarrow>
   e = ValueError concat_length_msg \<or> e = ValueError prompt_mask_length_msg"
  by (auto simp: build_tokenized_answer_def Let_def split: if_splits)

lemma encode_batch_error:
  "encode_batch self ct rt st = Inl e \<Longrightarrow> e = ValueError stack_shape_msg"
  by (auto simp: encode_batch_def Let_def np_stack_def split: if_splits sum.splits prod.splits)

lemma msgs_distinct:
  "prompts_differ_msg \<noteq> concat_length_msg"
  "prompts_differ_msg \<noteq> prompt_mask_length_msg"
  "prompts_differ_msg \<noteq> stack_shape_msg"
  by (simp_all add: prompts_differ_msg_def concat_length_msg_def prompt_mask_length_msg_def
      stack_shape_msg_def)

text \<open>
  C5: \<open>encode\<close> raises the \<open>ValueError\<close> "Chosen and rejected prompt_input_ids might
  only differ on the last token ..." for a document exactly when the document reaches the
  comparison (it was not discarded, and both answers were tokenized) and the chosen-prompt
  and rejected-prompt token id sequences differ in more than one position or their lengths
  differ by more than one; otherwise that error is not raised.
\<close>

theorem encode_prompts_differ_iff:
  "(encode self doc = Inl (ValueError prompts_differ_msg))
   = (\<exists>prompt prompt_chosen prompt_rejected data_stats chosen_tokens rejected_tokens.
        encode_texts self doc = Inr (Continue (prompt, prompt_chosen, prompt_rejected, data_stats))
        \<and> build_tokenized_answer self prompt prompt_chosen = Inr chosen_tokens
        \<and> build_tokenized_answer self prompt prompt_rejected = Inr rejected_tokens
        \<and> (1 < num_diff_tokens chosen_tokens rejected_tokens
             \<or> 1 < num_diff_len chosen_tokens rejected_tokens))"
proof (cases "encode_texts self doc")
  case (Inl e)
  then have "e = TypeError" by (rule encode_texts_error)
  with Inl show ?thesis by (simp add: encode_def)
next
  case (Inr st)
  show ?thesis
  proof (cases st)
    case (Discard x)
    with Inr show ?thesis by (simp add: encode_def)
  next
    case (Continue x)
    obtain prompt pc pr ds where x: "x = (prompt, pc, pr, ds)" by (cases x)
    have enc: "encode self doc = encode_tokens self prompt pc pr ds"
      using Inr Continue x by (simp add: encode_def)
    show ?thesis
    proof (cases "build_tokenized_answer self prompt pc")
      case bl: (Inl e)
      with build_tokenized_answer_error [OF bl] msgs_distinct Inr Continue x enc
      show ?thesis by (auto simp: encode_tokens_def)
    next
      case ct: (Inr ct)
      show ?thesis
      proof (cases "build_tokenized_answer self prompt pr")
        case bl: (Inl e)
        with build_tokenized_answer_error [OF bl] msgs_distinct Inr Continue x enc ct
        show ?thesis by (auto simp: encode_tokens_def)
      next
        case rt: (Inr rt)
        show ?thesis
        proof (cases "1 < num_diff_tokens ct rt \<or> 1 < num_diff_len ct rt")
          case True
          with Inr Continue x enc ct rt show ?thesis by (auto simp: encode_tokens_def)
        next
          case False
          then have e: "encode self doc = encode_batch self ct rt ds"
            using enc ct rt by (auto simp: encode_tokens_def)
          have "encode self doc \<noteq> Inl (ValueError prompts_differ_msg)"
          proof
            assume a: "encode self doc = Inl (ValueError prompts_differ_msg)"
            with e have "encode_batch self ct rt ds = Inl (ValueError prompts_differ_msg)" by simp
            from encode_batch_error [OF this] msgs_distinct show False by simp
          qed
          with False Inr Continue x ct rt show ?thesis by auto
        qed
      qed
    qed
  qed
qed

text \<open>
  C8: for every document whose \<open>chosen\<close> field is the empty string, \<open>encode\<close> raises no
  exception and returns an empty sample list with statistics in which \<open>discarded\<close> is 1
  and \<open>processed\<close> is 1.
\<close>

theorem encode_empty_chosen:
  "encode self (prompt, Str [], rejected) = Inr ([], initial_data_stats\<lparr>discarded := 1\<rparr>)
   \<and> discarded (initial_data_stats\<lparr>discarded := 1\<rparr>) = 1
   \<and> processed (initial_data_stats\<lparr>discarded := 1\<rparr>) = 1"
  by (simp add: encode_def encode_texts_def empty_fields_def initial_data_stats_def)

text \<open>
  A document that raises the error: its two conversations have different user turns, so the
  two prompts differ in two positions.
\<close>

lemma encode_differing_doc:
  "encode example_generator differing_doc = Inl (ValueError prompts_differ_msg)"
  by code_simp

lemma length_py_assign_prefix_self:
  "length (py_assign_prefix xs (int (length vals)) vals) = max (length vals) (length xs)"
  by (simp add: py_assign_prefix_def py_take_def)

lemma length_pad_tokens:
  "length (pad_tokens self v toks) = max (length toks) (nat (max_seq_length self))"
  by (simp add: pad_tokens_def Let_def length_py_assign_prefix_self py_repeat_def)

lemma length_assign_repeat:
  "length (py_assign_prefix xs k (py_repeat v k)) \<le> max (length xs) (nat k)"
  by (auto simp: py_assign_prefix_def py_repeat_def py_take_def)

lemma length_seq_labels:
  "length (seq_labels (make_sequence_tokens self t))
     \<le> length (seq_input_ids (make_sequence_tokens self t)) - 1"
proof -
  let ?ids = "prompt_input_ids t @ input_ids t"
  let ?n = "int (length (prompt_input_ids t)) - 1"
  have "length (py_assign_prefix (tl ?ids) ?n (py_repeat (pad_id self) ?n))
      \<le> max (length (tl ?ids)) (nat ?n)"
    by (rule length_assign_repeat)
  also have "\<dots> \<le> length ?ids - 1" by simp
  finally show ?thesis by (simp add: make_sequence_tokens_def Let_def)
qed

lemma np_stack_ok:
  "np_stack arrays = Inr st \<Longrightarrow> st = arrays \<and> list_all (\<lambda>a. length a = length (hd arrays)) arrays"
  by (auto simp: np_stack_def split: if_splits)

lemma make_batch_shape:
  assumes "np_stack (make_batch self c r) = Inr st"
  shows "\<exists>a1 a2 a3 a4 a5 a6. st = [a1, a2, a3, a4, a5, a6]
           \<and> length a1 = nat (max_seq_length self) \<and> length a2 = nat (max_seq_length self)
           \<and> length a3 = nat (max_seq_length self) \<and> length a4 = nat (max_seq_length self)
           \<and> length a5 = nat (max_seq_length self) \<and> length a6 = nat (max_seq_length self)"
proof -
  let ?cs = "make_sequence_tokens self c"
  let ?a1 = "pad_tokens self (pad_id self) (seq_input_ids ?cs)"
  let ?a3 = "pad_tokens self (pad_id self) (seq_labels ?cs)"
  from np_stack_ok [OF assms]
  have st: "st = make_batch self c r"
    and all: "list_all (\<lambda>a. length a = length (hd (make_batch self c r))) (make_batch self c r)"
    by simp_all
  have hd: "hd (make_batch self c r) = ?a1" by (simp add: make_batch_def Let_def)
  have "length ?a3 = length ?a1" using all unfolding hd by (simp add: make_batch_def Let_def)
  then have "max (length (seq_labels ?cs)) (nat (max_seq_length self))
      = max (length (seq_input_ids ?cs)) (nat (max_seq_length self))"
    by (simp add: length_pad_tokens)
  with length_seq_labels [of self c]
  have "length (seq_input_ids ?cs) \<le> nat (max_seq_length self)" by linarith
  then have "length ?a1 = nat (max_seq_length self)" by (simp add: length_pad_tokens)
  with all show ?thesis unfolding hd st by (simp add: make_batch_def Let_def)
qed

text \<open>
  C6: for every document that \<open>encode\<close> neither discards (empty sample list) nor rejects
  (an exception), and a \<open>max_seq_length\<close> that is not negative, the returned sample
  consists of exactly six arrays (chosen and rejected input ids, attention mask and labels),
  each of length exactly \<open>max_seq_length\<close>, stacked into shape \<open>(1, 6, max_seq_length)\<close>.
\<close>

theorem encode_sample_shape:
  assumes "encode self doc = Inr (sample, stats)" "sample \<noteq> []" "0 \<le> max_seq_length self"
  shows "\<exists>a1 a2 a3 a4 a5 a6. sample = [[a1, a2, a3, a4, a5, a6]]
           \<and> int (length a1) = max_seq_length self \<and> int (length a2) = max_seq_length self
           \<and> int (length a3) = max_seq_length self \<and> int (length a4) = max_seq_length self
           \<and> int (length a5) = max_seq_length self \<and> int (length a6) = max_seq_length self
           \<and> successful stats = 1 \<and> num_tokens stats = 6 * max_seq_length self"
proof -
  from assms(1,2) obtain prompt pc pr ds where
    "encode_tokens self prompt pc pr ds = Inr (sample, stats)"
    by (auto simp: encode_def split: sum.splits step.splits prod.splits)
  then obtain ct rt where "encode_batch self ct rt ds = Inr (sample, stats)"
    by (auto simp: encode_tokens_def split: sum.splits if_splits)
  then obtain c r st where st: "np_stack (make_batch self c r) = Inr st"
    and s: "sample = [st]" and "successful stats = 1" "num_tokens stats = 6 * max_seq_length self"
    by (auto simp: encode_batch_def Let_def split: sum.splits prod.splits)
  with make_batch_shape [OF st] assms(3) show ?thesis by auto
qed

theorem encode_sample_shape_witness:
  "\<exists>a1 a2 a3 a4 a5 a6 stats.
     encode example_generator example_doc = Inr ([[a1, a2, a3, a4, a5, a6]], stats)
     \<and> length a1 = 12 \<and> length a2 = 12 \<and> length a3 = 12
     \<and> length a4 = 12 \<and> length a5 = 12 \<and> length a6 = 12"
proof -
  have e: "encode example_generator example_doc =
    Inr ([[[32, 72, 105, 32, 91, 47, 73, 78, 83, 84, 93, 32],
           [0, 0, 0, 1, 1, 1, 1, 1, 1, 1, 1, 1],
           [1, 1, 1, 91, 47, 73, 78, 83, 84, 93, 32, 1],
           [32, 72, 105, 32, 91, 47, 73, 78, 83, 84, 93, 32],
           [0, 0, 0, 1, 1, 1, 1, 1, 1, 1, 1, 1],
           [1, 1, 1, 91, 47, 73, 78, 83, 84, 93, 32, 1]]],
         \<lparr>discarded = 0, processed = 1, successful = 1, raw_chars_count = 41,
            raw_bytes_count = 41, num_pad_tokens = 2, num_masked_tokens = 6,
            loss_valid_tokens = 18, num_tokens = 72,
            normalized_chars_count = 41, normalized_bytes_count = 41\<rparr>)"
    by code_simp
  have m: "max_seq_length example_generator = 12" by (simp add: example_generator_def)
  from encode_sample_shape [OF e] m e show ?thesis by simp
qed

end
